theory Spec2Isabelle
  imports
    Complex_Main
    "HOL-Library.Word"
    "HOL-Library.Signed_Division"
    "HOL-Library.Monad_Syntax"
begin

section \<open>Heartbeat monitor with OLED graph: the sketch \<open>heartbeat_oled.ino\<close>\<close>

text \<open>
  The sketch targets an Arduino UNO/Nano (AVR): \<open>int\<close> has 16 bits, \<open>long\<close> and
  \<open>unsigned long\<close> have 32 bits, \<open>uint8_t\<close> has 8 bits. Unsigned arithmetic wraps
  around, which is what \<open>+\<close>, \<open>-\<close> and \<open>*\<close> on words do. Signed values are words read
  through \<open>sint\<close> and compared with \<open>\<le>s\<close> and \<open><s\<close>.
\<close>

subsection \<open>Machine types and conversions\<close>

type_synonym c_int = "16 word"
type_synonym c_long = "32 word"
type_synonym c_ulong = "32 word"
type_synonym uint8_t = "8 word"

text \<open>Integer promotion of a \<open>uint8_t\<close> to \<open>int\<close>: the value is kept.\<close>

definition int_of_u8 :: "uint8_t \<Rightarrow> c_int" where
  "int_of_u8 b = ucast b"

text \<open>Conversion of an \<open>int\<close> to \<open>long\<close>: sign extension.\<close>

definition long_of_int :: "c_int \<Rightarrow> c_long" where
  "long_of_int i = scast i"

text \<open>The cast \<open>(uint8_t)y\<close> of a \<open>long\<close>: the low byte.\<close>

definition u8_of_long :: "c_long \<Rightarrow> uint8_t" where
  "u8_of_long y = ucast y"

text \<open>The cast \<open>(int)q\<close> of an \<open>unsigned long\<close>: the low 16 bits.\<close>

definition int_of_ulong :: "c_ulong \<Rightarrow> c_int" where
  "int_of_ulong q = ucast q"

text \<open>Signed division of two \<open>long\<close>s: C truncates towards zero.\<close>

definition long_div :: "c_long \<Rightarrow> c_long \<Rightarrow> c_long" where
  "long_div a b = word_of_int (sint a sdiv sint b)"

text \<open>
  Unsigned division \<open>a / b\<close> of two \<open>unsigned long\<close>s. Division by zero is undefined
  behaviour in C; the model makes it the value \<open>None\<close>.
\<close>

definition ulong_div :: "c_ulong \<Rightarrow> c_ulong \<Rightarrow> c_ulong option" where
  "ulong_div a b = (if b = 0 then None else Some (a div b))"

subsection \<open>Floating point\<close>

text \<open>
  The baseline \<open>ema\<close> is a \<open>float\<close>. Its arithmetic is a parameter of the model: a
  record of the operations the sketch uses on \<open>float\<close>s, over any carrier \<open>'f\<close>.
\<close>

record 'f float_ops =
  f_lit :: "rat \<Rightarrow> 'f"               \<comment> \<open>a literal such as \<open>0.05f\<close>\<close>
  f_of_int :: "c_int \<Rightarrow> 'f"          \<comment> \<open>conversion of an \<open>int\<close>\<close>
  f_add :: "'f \<Rightarrow> 'f \<Rightarrow> 'f"
  f_sub :: "'f \<Rightarrow> 'f \<Rightarrow> 'f"
  f_mul :: "'f \<Rightarrow> 'f \<Rightarrow> 'f"
  f_less :: "'f \<Rightarrow> 'f \<Rightarrow> bool"

text \<open>
  An instance without rounding, over the rationals, on which the model can be run on
  concrete inputs.
\<close>

definition exact_ops :: "rat float_ops" where
  "exact_ops =
     \<lparr>f_lit = (\<lambda>q. q), f_of_int = (\<lambda>i. of_int (sint i)),
      f_add = (+), f_sub = (-), f_mul = (*), f_less = (<)\<rparr>"

subsection \<open>Configuration and global state\<close>

definition SCREEN_WIDTH :: nat where
  "SCREEN_WIDTH = 128"

definition SCREEN_HEIGHT :: c_int where
  "SCREEN_HEIGHT = 64"

definition emaAlpha :: "'f float_ops \<Rightarrow> 'f" where
  "emaAlpha ops = f_lit ops (5 / 100)"

definition thresholdDelta :: c_int where
  "thresholdDelta = 30"

definition refractoryMs :: c_ulong where
  "refractoryMs = 250"

definition graphTop :: uint8_t where
  "graphTop = 20"

definition graphBottom :: uint8_t where
  "graphBottom = ucast (SCREEN_HEIGHT - 1)"

text \<open>
  The display driver is an external collaborator. The model records the calls the sketch
  makes on it, in order.
\<close>

datatype display_call =
    ClearDisplay
  | SetTextSize nat
  | SetTextColor
  | SetCursor c_int c_int
  | Println string
  | PrintStr string
  | PrintInt c_int
  | DrawLine c_int c_int c_int c_int
  | Display

text \<open>
  The globals of the sketch, the static local \<open>lastRefresh\<close> of \<open>loop\<close>, and the calls
  made on the display so far.
\<close>

record 'f state =
  ema :: 'f
  prevAbove :: bool
  lastBeatMs :: c_ulong
  bpm :: c_int
  bpmDisplayed :: c_int
  graphBuf :: "uint8_t list"
  lastRefresh :: c_ulong
  oled :: "display_call list"

text \<open>The values the globals have before \<open>setup\<close> runs.\<close>

definition globals :: "'f float_ops \<Rightarrow> 'f state" where
  "globals ops =
     \<lparr>ema = f_lit ops 512, prevAbove = False, lastBeatMs = 0, bpm = 0, bpmDisplayed = 0,
      graphBuf = replicate SCREEN_WIDTH 0, lastRefresh = 0, oled = []\<rparr>"

subsection \<open>\<open>mapBpmToY\<close>\<close>

definition mapBpmToY :: "c_int \<Rightarrow> uint8_t" where
  "mapBpmToY v0 =
     (let v1 = (if v0 <s 60 then 60 else v0);
          v = (if 130 <s v1 then 130 else v1);
          y0 = long_of_int (int_of_u8 graphBottom)
               - long_div (long_of_int (int_of_u8 graphBottom - int_of_u8 graphTop)
                             * long_of_int (v - 60))
                          (long_of_int (130 - 60));
          y1 = (if y0 <s long_of_int (int_of_u8 graphTop)
                then long_of_int (int_of_u8 graphTop) else y0);
          y = (if long_of_int (int_of_u8 graphBottom) <s y1
               then long_of_int (int_of_u8 graphBottom) else y1)
      in u8_of_long y)"

subsection \<open>\<open>setup\<close>\<close>

text \<open>The loop \<open>for (int i = 0; i < SCREEN_WIDTH; i++) graphBuf[i] = midY;\<close>\<close>

function fill_graph :: "nat \<Rightarrow> uint8_t \<Rightarrow> uint8_t list \<Rightarrow> uint8_t list" where
  "fill_graph i midY buf =
     (if i < SCREEN_WIDTH then fill_graph (i + 1) midY (buf[i := midY]) else buf)"
  by pat_completeness auto
termination
  by (relation "measure (\<lambda>(i, midY, buf). SCREEN_WIDTH - i)") auto

text \<open>
  \<open>setup\<close> never returns when the display fails to initialise (\<open>for (;;) {}\<close>): the
  result is \<open>None\<close>. The argument \<open>begin_ok\<close> is what \<open>display.begin\<close> returns.
\<close>

definition setup_sketch :: "bool \<Rightarrow> 'f state \<Rightarrow> 'f state option" where
  "setup_sketch begin_ok s =
     (if \<not> begin_ok then None
      else
        let s1 = s\<lparr>oled := oled s @
                   [ClearDisplay, SetTextSize 1, SetTextColor, SetCursor 0 0,
                    Println ''Heartbeat Monitor'', SetCursor 0 10,
                    Println ''Range: 60-130 BPM'', Display]\<rparr>;
            midY = mapBpmToY 95
        in Some (s1\<lparr>graphBuf := fill_graph 0 midY (graphBuf s1)\<rparr>))"

subsection \<open>\<open>drawUI\<close>\<close>

text \<open>
  What \<open>drawUI\<close> prints in the big font, given the value of \<open>bpmDisplayed\<close>: the
  number or the placeholder.
\<close>

definition bpm_text :: "c_int \<Rightarrow> display_call" where
  "bpm_text shown =
     (if 60 \<le>s shown \<and> shown \<le>s 130 then PrintInt shown else PrintStr ''--'')"

text \<open>The segments of the scrolling graph, for \<open>x\<close> from 1 to \<open>SCREEN_WIDTH - 1\<close>.\<close>

definition graph_lines :: "uint8_t list \<Rightarrow> display_call list" where
  "graph_lines buf =
     map (\<lambda>x. DrawLine (of_nat (x - 1)) (int_of_u8 (buf ! (x - 1)))
                        (of_nat x) (int_of_u8 (buf ! x)))
         [1 ..< SCREEN_WIDTH]"

text \<open>
  The calls of one \<open>drawUI\<close>, which reads the globals \<open>bpmDisplayed\<close> and
  \<open>graphBuf\<close>.
\<close>

definition frame :: "c_int \<Rightarrow> uint8_t list \<Rightarrow> display_call list" where
  "frame shown buf =
     (let y60 = mapBpmToY 60; y95 = mapBpmToY 95; y130 = mapBpmToY 130
      in [ClearDisplay, SetTextSize 1, SetTextColor, SetCursor 0 0,
          Println ''Heartbeat (BPM)'', SetTextSize 2, SetCursor 0 12, bpm_text shown,
          SetTextSize 1, SetCursor 80 0, PrintStr ''60'', SetCursor 80 8, PrintStr ''130'',
          DrawLine 0 (int_of_u8 y60) (of_nat (SCREEN_WIDTH - 1)) (int_of_u8 y60),
          DrawLine 0 (int_of_u8 y95) (of_nat (SCREEN_WIDTH - 1)) (int_of_u8 y95),
          DrawLine 0 (int_of_u8 y130) (of_nat (SCREEN_WIDTH - 1)) (int_of_u8 y130)]
         @ graph_lines buf @ [Display])"

definition drawUI :: "'f state \<Rightarrow> 'f state" where
  "drawUI s = s\<lparr>oled := oled s @ frame (bpmDisplayed s) (graphBuf s)\<rparr>"

subsection \<open>\<open>pushGraph\<close>\<close>

text \<open>The loop \<open>for (int i = 0; i < SCREEN_WIDTH - 1; i++) graphBuf[i] = graphBuf[i + 1];\<close>\<close>

function shift_left :: "nat \<Rightarrow> uint8_t list \<Rightarrow> uint8_t list" where
  "shift_left i buf =
     (if i < SCREEN_WIDTH - 1 then shift_left (i + 1) (buf[i := buf ! (i + 1)]) else buf)"
  by pat_completeness auto
termination
  by (relation "measure (\<lambda>(i, buf). SCREEN_WIDTH - 1 - i)") auto

definition pushGraph :: "c_int \<Rightarrow> 'f state \<Rightarrow> 'f state" where
  "pushGraph validBpm s =
     s\<lparr>graphBuf := (shift_left 0 (graphBuf s))[SCREEN_WIDTH - 1 := mapBpmToY validBpm]\<rparr>"

subsection \<open>\<open>loop\<close>\<close>

text \<open>Line 154: the update of the baseline.\<close>

definition ema_next :: "'f float_ops \<Rightarrow> c_int \<Rightarrow> 'f \<Rightarrow> 'f" where
  "ema_next ops raw e =
     f_add ops (f_mul ops (f_sub ops (f_lit ops 1) (emaAlpha ops)) e)
               (f_mul ops (emaAlpha ops) (f_of_int ops raw))"

text \<open>Line 157: \<open>raw > (ema + thresholdDelta)\<close>, on the updated baseline.\<close>

definition above :: "'f float_ops \<Rightarrow> c_int \<Rightarrow> 'f \<Rightarrow> bool" where
  "above ops raw e = f_less ops (f_add ops e (f_of_int ops thresholdDelta)) (f_of_int ops raw)"

text \<open>Line 168: \<open>(int)(60000UL / rr)\<close>.\<close>

definition bpm_of_rr :: "c_ulong \<Rightarrow> c_int option" where
  "bpm_of_rr rr = do { q \<leftarrow> ulong_div 60000 rr; Some (int_of_ulong q) }"

text \<open>Line 170: the range check.\<close>

definition valid_bpm :: "c_int \<Rightarrow> bool" where
  "valid_bpm newBpm \<longleftrightarrow> 60 \<le>s newBpm \<and> newBpm \<le>s 130"

text \<open>
  One iteration. \<open>raw\<close> is what \<open>analogRead\<close> returns and \<open>now\<close> what \<open>millis\<close>
  returns. The result is \<open>None\<close> if the iteration divides by zero.
\<close>

definition loop :: "'f float_ops \<Rightarrow> c_int \<Rightarrow> c_ulong \<Rightarrow> 'f state \<Rightarrow> 'f state option" where
  "loop ops raw now s0 = do {
     let s1 = s0\<lparr>ema := ema_next ops raw (ema s0)\<rparr>;
     let isAbove = above ops raw (ema s1);
     s2 \<leftarrow>
       (if isAbove \<and> \<not> prevAbove s1 then
          (if now - lastBeatMs s1 > refractoryMs then do {
             s' \<leftarrow>
               (if lastBeatMs s1 \<noteq> 0 then do {
                  let rr = now - lastBeatMs s1;
                  newBpm \<leftarrow> bpm_of_rr rr;
                  (if valid_bpm newBpm then do {
                     let a = s1\<lparr>bpm := newBpm\<rparr>;
                     let b = a\<lparr>bpmDisplayed := bpm a\<rparr>;
                     Some (drawUI (pushGraph (bpm b) b))
                   } else Some s1)
                } else Some s1);
             Some (s'\<lparr>lastBeatMs := now\<rparr>)
           } else Some s1)
        else Some s1);
     let s3 = s2\<lparr>prevAbove := isAbove\<rparr>;
     Some (if now - lastRefresh s3 > 500 then drawUI (s3\<lparr>lastRefresh := now\<rparr>) else s3)
   }"

text \<open>Running the sketch on a list of ticks, each a sample and the time it was taken at.\<close>

fun run :: "'f float_ops \<Rightarrow> (c_int \<times> c_ulong) list \<Rightarrow> 'f state \<Rightarrow> 'f state option" where
  "run ops [] s = Some s"
| "run ops ((raw, now) # ticks) s = do { s' \<leftarrow> loop ops raw now s; run ops ticks s' }"

subsection \<open>What one iteration observes\<close>

text \<open>Line 162: a rising-edge candidate, \<open>isAbove && !prevAbove\<close>.\<close>

definition rising_edge :: "'f float_ops \<Rightarrow> c_int \<Rightarrow> 'f state \<Rightarrow> bool" where
  "rising_edge ops raw s \<longleftrightarrow> above ops raw (ema_next ops raw (ema s)) \<and> \<not> prevAbove s"

text \<open>Line 164: the candidate passes the refractory check and becomes an accepted beat.\<close>

definition beat_due :: "'f float_ops \<Rightarrow> c_int \<Rightarrow> c_ulong \<Rightarrow> 'f state \<Rightarrow> bool" where
  "beat_due ops raw now s \<longleftrightarrow> rising_edge ops raw s \<and> refractoryMs < now - lastBeatMs s"

text \<open>Lines 166 to 168: the BPM candidate \<open>newBpm\<close> of an accepted beat.\<close>

definition candidate :: "c_ulong \<Rightarrow> 'f state \<Rightarrow> c_int" where
  "candidate now s = int_of_ulong (60000 div (now - lastBeatMs s))"

text \<open>Lines 165 and 170: a BPM candidate is computed and is in range.\<close>

definition beat_valid :: "'f float_ops \<Rightarrow> c_int \<Rightarrow> c_ulong \<Rightarrow> 'f state \<Rightarrow> bool" where
  "beat_valid ops raw now s \<longleftrightarrow>
     beat_due ops raw now s \<and> lastBeatMs s \<noteq> 0 \<and> valid_bpm (candidate now s)"

subsection \<open>Runs of pushes\<close>

text \<open>A run of \<open>pushGraph\<close> calls, oldest value first.\<close>

fun pushes :: "c_int list \<Rightarrow> 'f state \<Rightarrow> 'f state" where
  "pushes [] s = s"
| "pushes (v # vs) s = pushes vs (pushGraph v s)"

subsection \<open>The coordinate mapping of the specification\<close>

text \<open>
  On unbounded integers: clamp to \<open>[60, 130]\<close>, then interpolate linearly from
  \<open>y_bottom\<close> at 60 to \<open>y_top\<close> at 130, in integer arithmetic.
\<close>

definition mapToCoordinate :: "int \<Rightarrow> int \<Rightarrow> int \<Rightarrow> int" where
  "mapToCoordinate y_top y_bottom b =
     y_bottom - (y_bottom - y_top) * (min 130 (max 60 b) - 60) div (130 - 60)"

subsection \<open>The invariant of the BPM state\<close>

text \<open>Each of \<open>bpm\<close> and \<open>bpmDisplayed\<close> is the initial 0 or passes the range check.\<close>

definition bpm_invariant :: "'f state \<Rightarrow> bool" where
  "bpm_invariant s \<longleftrightarrow>
     (bpm s = 0 \<or> valid_bpm (bpm s)) \<and> (bpmDisplayed s = 0 \<or> valid_bpm (bpmDisplayed s))"

subsection \<open>Runs and frames\<close>

text \<open>
  No tick of the run has a beat whose BPM candidate is accepted; each tick is judged in
  the state the ticks before it leave.
\<close>

fun no_valid_beat :: "'f float_ops \<Rightarrow> (c_int \<times> c_ulong) list \<Rightarrow> 'f state \<Rightarrow> bool" where
  "no_valid_beat ops [] s = True"
| "no_valid_beat ops ((raw, now) # ticks) s =
     (\<not> beat_valid ops raw now s \<and>
      (case loop ops raw now s of None \<Rightarrow> True | Some s' \<Rightarrow> no_valid_beat ops ticks s'))"

text \<open>The calls of a sequence of frames, each given by the number shown and the graph.\<close>

definition frames :: "(c_int \<times> uint8_t list) list \<Rightarrow> display_call list" where
  "frames shots = concat (map (\<lambda>(shown, buf). frame shown buf) shots)"

subsection \<open>A concrete state\<close>

text \<open>
  The sketch at rest, over the exact arithmetic: the baseline at half-scale, the signal
  below the threshold, the last-beat timestamp \<open>t\<close> (0 when there was no beat yet), no
  valid BPM yet, the graph still flat at the coordinate of 95 BPM, the last periodic
  refresh at time \<open>r\<close>, nothing drawn so far.
\<close>

definition idle_state :: "c_ulong \<Rightarrow> c_ulong \<Rightarrow> rat state" where
  "idle_state t r =
     \<lparr>ema = 512, prevAbove = False, lastBeatMs = t, bpm = 0, bpmDisplayed = 0,
      graphBuf = replicate SCREEN_WIDTH 42, lastRefresh = r, oled = []\<rparr>"

section \<open>Lemmas\<close>

subsection \<open>Words in range\<close>

lemma sint_word32: "- 2147483648 \<le> k \<Longrightarrow> k < 2147483648 \<Longrightarrow> sint (word_of_int k :: 32 word) = k"
  by (simp add: sint_sbintrunc' signed_take_bit_int_eq_self)

lemma long_of_int_eq: "long_of_int i = word_of_int (sint i)"
  by (simp add: long_of_int_def)

lemma sint_long_of_int: "sint (long_of_int i) = sint i"
  by (simp add: long_of_int_def sint_up_scast is_up)

subsection \<open>\<open>mapBpmToY\<close>\<close>

lemma clamped_sint:
  "sint (if 130 <s (if v0 <s 60 then 60 else v0) then 130
         else (if v0 <s 60 then 60 else v0) :: 16 word)
     = min 130 (max 60 (sint v0))"
  by (simp add: word_sless_alt)

lemma interpolate:
  fixes v :: c_int
  assumes "60 \<le> sint v" "sint v \<le> 130"
  shows "long_of_int (int_of_u8 graphBottom)
               - long_div (long_of_int (int_of_u8 graphBottom - int_of_u8 graphTop)
                             * long_of_int (v - 60))
                          (long_of_int (130 - 60))
         = word_of_int (63 - 43 * (sint v - 60) div 70)"
proof -
  define p :: int where "p = 43 * (sint v - 60)"
  have p: "0 \<le> p" "p \<le> 3010"
    using assms by (simp_all add: p_def)
  have d: "sint (v - 60) = sint v - 60"
    using assms by (simp add: sint_word_diff signed_take_bit_int_eq_self)
  have m: "long_of_int (int_of_u8 graphBottom - int_of_u8 graphTop) * long_of_int (v - 60)
           = word_of_int p"
    by (simp add: long_of_int_eq d int_of_u8_def graphBottom_def graphTop_def
        SCREEN_HEIGHT_def p_def)
  have s: "sint (word_of_int p :: 32 word) = p"
    using p by (intro sint_word32) auto
  have q: "p sdiv 70 = p div 70"
    using p by (simp add: signed_divide_int_def sgn_if)
  have "long_of_int (int_of_u8 graphBottom) - long_div (word_of_int p) (long_of_int (130 - 60))
        = word_of_int (63 - p div 70)"
    unfolding long_div_def s
    by (simp add: long_of_int_eq q int_of_u8_def graphBottom_def SCREEN_HEIGHT_def)
  then show ?thesis
    unfolding m by (simp only: p_def)
qed

lemma interpolate_range:
  assumes "60 \<le> (k::int)" "k \<le> 130"
  shows "20 \<le> 63 - 43 * (k - 60) div 70" "63 - 43 * (k - 60) div 70 \<le> 63"
proof -
  define p where "p = 43 * (k - 60)"
  have p: "0 \<le> p" "p \<le> 3010"
    using assms by (simp_all add: p_def)
  have lo: "0 \<le> p div 70"
    using p(1) by (simp add: pos_imp_zdiv_nonneg_iff)
  have "p div 70 \<le> 3010 div 70"
    using p(2) by (intro zdiv_mono1) simp_all
  then have hi: "p div 70 \<le> 43"
    by simp
  show "20 \<le> 63 - 43 * (k - 60) div 70" "63 - 43 * (k - 60) div 70 \<le> 63"
    using lo hi unfolding p_def by linarith+
qed

lemma clamp_range: "60 \<le> min 130 (max 60 (k::int))" "min 130 (max 60 (k::int)) \<le> 130"
  by simp_all

lemma uint_mapBpmToY: "uint (mapBpmToY v0) = mapToCoordinate 20 63 (sint v0)"
proof -
  define v :: c_int
    where "v = (if 130 <s (if v0 <s 60 then 60 else v0) then 130
                else (if v0 <s 60 then 60 else v0))"
  define y :: int where "y = 63 - 43 * (sint v - 60) div 70"
  have c: "sint v = min 130 (max 60 (sint v0))"
    unfolding v_def by (rule clamped_sint)
  have r: "60 \<le> sint v" "sint v \<le> 130"
    unfolding c by (rule clamp_range)+
  then have y: "20 \<le> y" "y \<le> 63"
    unfolding y_def by (rule interpolate_range)+
  have sy: "sint (word_of_int y :: 32 word) = y"
    using y by (intro sint_word32) auto
  have "mapBpmToY v0 = u8_of_long (word_of_int y)"
    using y unfolding mapBpmToY_def Let_def v_def [symmetric] interpolate [OF r] y_def [symmetric]
    by (simp add: word_sless_alt sy sint_long_of_int int_of_u8_def graphBottom_def graphTop_def
        SCREEN_HEIGHT_def)
  also have "uint \<dots> = y"
    using y by (simp add: u8_of_long_def uint_word_of_int_eq unsigned_ucast_eq take_bit_int_eq_self)
  also have "y = mapToCoordinate 20 63 (sint v0)"
    unfolding y_def c mapToCoordinate_def by simp
  finally show ?thesis .
qed

lemma uint_mapBpmToY_spec:
  "uint (mapBpmToY v) = mapToCoordinate (uint graphTop) (uint graphBottom) (sint v)"
proof -
  have "uint graphTop = 20" "uint graphBottom = 63"
    by (simp_all add: graphTop_def graphBottom_def SCREEN_HEIGHT_def)
  then show ?thesis
    by (simp only: uint_mapBpmToY)
qed

lemma mapToCoordinate_mono:
  assumes "a \<le> b" "y_top \<le> y_bottom"
  shows "mapToCoordinate y_top y_bottom b \<le> mapToCoordinate y_top y_bottom a"
proof -
  have "min 130 (max 60 a) - 60 \<le> min 130 (max 60 b) - 60"
    using assms(1) by auto
  then have "(y_bottom - y_top) * (min 130 (max 60 a) - 60)
             \<le> (y_bottom - y_top) * (min 130 (max 60 b) - 60)"
    using assms(2) by (intro mult_left_mono) auto
  then have "(y_bottom - y_top) * (min 130 (max 60 a) - 60) div 70
             \<le> (y_bottom - y_top) * (min 130 (max 60 b) - 60) div 70"
    by (intro zdiv_mono1) auto
  then show ?thesis
    unfolding mapToCoordinate_def by simp
qed

lemma mapToCoordinate_low: "b \<le> 60 \<Longrightarrow> mapToCoordinate y_top y_bottom b = y_bottom"
  by (simp add: mapToCoordinate_def max_absorb1)

lemma mapToCoordinate_high: "130 \<le> b \<Longrightarrow> mapToCoordinate y_top y_bottom b = y_top"
  by (simp add: mapToCoordinate_def max_absorb2 min_absorb1)

lemma mapBpmToY_mono:
  assumes "sint a \<le> sint b"
  shows "mapBpmToY b \<le> mapBpmToY a"
  unfolding word_le_def uint_mapBpmToY
  using assms by (rule mapToCoordinate_mono) simp

lemma mapBpmToY_low:
  assumes "sint v \<le> 60"
  shows "mapBpmToY v = graphBottom"
proof -
  have "uint (mapBpmToY v) = uint graphBottom"
    unfolding uint_mapBpmToY mapToCoordinate_low [OF assms]
    by (simp add: graphBottom_def SCREEN_HEIGHT_def)
  then show ?thesis
    by (simp only: word_uint_eq_iff)
qed

lemma mapBpmToY_high:
  assumes "130 \<le> sint v"
  shows "mapBpmToY v = graphTop"
proof -
  have "uint (mapBpmToY v) = uint graphTop"
    unfolding uint_mapBpmToY mapToCoordinate_high [OF assms]
    by (simp add: graphTop_def)
  then show ?thesis
    by (simp only: word_uint_eq_iff)
qed

lemma mapBpmToY_range: "graphTop \<le> mapBpmToY v" "mapBpmToY v \<le> graphBottom"
proof -
  define k where "k = min 130 (max 60 (sint v))"
  have "uint (mapBpmToY v) = 63 - 43 * (k - 60) div 70"
    by (simp add: uint_mapBpmToY mapToCoordinate_def k_def)
  moreover have "20 \<le> 63 - 43 * (k - 60) div 70" "63 - 43 * (k - 60) div 70 \<le> 63"
    unfolding k_def by (rule interpolate_range; rule clamp_range)+
  ultimately show "graphTop \<le> mapBpmToY v" "mapBpmToY v \<le> graphBottom"
    by (simp_all add: word_le_def graphTop_def graphBottom_def SCREEN_HEIGHT_def)
qed

lemma mapBpmToY_60: "mapBpmToY 60 = graphBottom"
  by (rule mapBpmToY_low) simp

lemma mapBpmToY_130: "mapBpmToY 130 = graphTop"
  by (rule mapBpmToY_high) simp

subsection \<open>\<open>pushGraph\<close>\<close>

declare shift_left.simps [simp del] fill_graph.simps [simp del]

lemma length_shift_left: "length (shift_left i buf) = length buf"
proof (induction i buf rule: shift_left.induct)
  case (1 i buf)
  then show ?case
    by (subst shift_left.simps) simp
qed

lemma nth_shift_left:
  "shift_left i buf ! j = (if i \<le> j \<and> j < SCREEN_WIDTH - 1 then buf ! (j + 1) else buf ! j)"
  if "length buf = SCREEN_WIDTH"
  using that
proof (induction i buf arbitrary: j rule: shift_left.induct)
  case (1 i buf)
  show ?case
  proof (cases "i < SCREEN_WIDTH - 1")
    case True
    have "shift_left i buf ! j = shift_left (i + 1) (buf[i := buf ! (i + 1)]) ! j"
      using True by (subst shift_left.simps) simp
    also have "\<dots> = (if i + 1 \<le> j \<and> j < SCREEN_WIDTH - 1
                       then buf[i := buf ! (i + 1)] ! (j + 1) else buf[i := buf ! (i + 1)] ! j)"
      using "1.IH" [OF True] "1.prems" by simp
    also have "\<dots> = (if i \<le> j \<and> j < SCREEN_WIDTH - 1 then buf ! (j + 1) else buf ! j)"
      using True "1.prems" by (auto simp: nth_list_update)
    finally show ?thesis .
  next
    case False
    then show ?thesis
      by (subst shift_left.simps) auto
  qed
qed

lemma shift_left_0:
  assumes "length buf = SCREEN_WIDTH"
  shows "(shift_left 0 buf)[SCREEN_WIDTH - 1 := y] = tl buf @ [y]"
proof (rule nth_equalityI)
  show "length ((shift_left 0 buf)[SCREEN_WIDTH - 1 := y]) = length (tl buf @ [y])"
    using assms by (simp add: length_shift_left SCREEN_WIDTH_def)
next
  fix j
  assume "j < length ((shift_left 0 buf)[SCREEN_WIDTH - 1 := y])"
  then have j: "j < SCREEN_WIDTH"
    using assms by (simp add: length_shift_left)
  show "(shift_left 0 buf)[SCREEN_WIDTH - 1 := y] ! j = (tl buf @ [y]) ! j"
  proof (cases "j = SCREEN_WIDTH - 1")
    case True
    then show ?thesis
      using assms by (simp add: length_shift_left nth_append SCREEN_WIDTH_def)
  next
    case False
    with j have "j < SCREEN_WIDTH - 1" by simp
    then show ?thesis
      using assms False by (simp add: nth_shift_left nth_append nth_tl)
  qed
qed

lemma graphBuf_pushGraph:
  "length (graphBuf s) = SCREEN_WIDTH \<Longrightarrow>
   graphBuf (pushGraph v s) = tl (graphBuf s) @ [mapBpmToY v]"
  by (simp add: pushGraph_def shift_left_0 del: One_nat_def)

lemma length_graphBuf_pushGraph:
  "length (graphBuf s) = SCREEN_WIDTH \<Longrightarrow> length (graphBuf (pushGraph v s)) = SCREEN_WIDTH"
  by (simp add: graphBuf_pushGraph SCREEN_WIDTH_def)

lemma nth_graphBuf_pushGraph:
  assumes "length (graphBuf s) = SCREEN_WIDTH"
  shows "graphBuf (pushGraph v s) ! j =
           (if j < SCREEN_WIDTH - 1 then graphBuf s ! (j + 1)
            else if j = SCREEN_WIDTH - 1 then mapBpmToY v
            else graphBuf (pushGraph v s) ! j)"
  using assms by (simp add: graphBuf_pushGraph nth_append nth_tl)

lemma pushGraph_other [simp]:
  "bpm (pushGraph v s) = bpm s" "bpmDisplayed (pushGraph v s) = bpmDisplayed s"
  "lastBeatMs (pushGraph v s) = lastBeatMs s" "prevAbove (pushGraph v s) = prevAbove s"
  "ema (pushGraph v s) = ema s" "lastRefresh (pushGraph v s) = lastRefresh s"
  "oled (pushGraph v s) = oled s"
  by (simp_all add: pushGraph_def)

lemma graphBuf_pushes:
  "length (graphBuf s) = SCREEN_WIDTH \<Longrightarrow>
   graphBuf (pushes vs s) = drop (length vs) (graphBuf s @ map mapBpmToY vs)"
proof (induction vs arbitrary: s)
  case Nil
  then show ?case by simp
next
  case (Cons v vs)
  have ne: "graphBuf s \<noteq> []"
    using Cons.prems by (auto simp: SCREEN_WIDTH_def)
  have step: "graphBuf (pushGraph v s) @ map mapBpmToY vs
              = tl (graphBuf s @ map mapBpmToY (v # vs))"
    using ne by (simp add: graphBuf_pushGraph [OF Cons.prems])
  have "graphBuf (pushes (v # vs) s)
        = drop (length vs) (graphBuf (pushGraph v s) @ map mapBpmToY vs)"
    using Cons.IH [OF length_graphBuf_pushGraph [OF Cons.prems]] by simp
  also have "\<dots> = drop (length vs) (tl (graphBuf s @ map mapBpmToY (v # vs)))"
    by (simp only: step)
  also have "\<dots> = drop (length (v # vs)) (graphBuf s @ map mapBpmToY (v # vs))"
    by (simp only: drop_Suc length_Cons)
  finally show ?case .
qed

lemma graphBuf_pushes_overflow:
  assumes "length (graphBuf s) = SCREEN_WIDTH" "length vs = SCREEN_WIDTH + 1"
  shows "graphBuf (pushes vs s) = map mapBpmToY (tl vs)"
proof -
  have "drop (length vs) (graphBuf s @ map mapBpmToY vs) = drop 1 (map mapBpmToY vs)"
    using assms by simp
  also have "\<dots> = map mapBpmToY (tl vs)"
    by (simp add: drop_Suc map_tl)
  finally show ?thesis
    by (simp only: graphBuf_pushes [OF assms(1)])
qed

subsection \<open>\<open>setup\<close>\<close>

lemma length_fill_graph: "length (fill_graph i y buf) = length buf"
proof (induction i y buf rule: fill_graph.induct)
  case (1 i y buf)
  then show ?case
    by (subst fill_graph.simps) simp
qed

lemma nth_fill_graph:
  "fill_graph i y buf ! j = (if i \<le> j then y else buf ! j)"
  if "length buf = SCREEN_WIDTH" "j < SCREEN_WIDTH"
  using that
proof (induction i y buf rule: fill_graph.induct)
  case (1 i y buf)
  show ?case
  proof (cases "i < SCREEN_WIDTH")
    case True
    have "fill_graph i y buf ! j = fill_graph (i + 1) y (buf[i := y]) ! j"
      using True by (subst fill_graph.simps) simp
    also have "\<dots> = (if i + 1 \<le> j then y else buf[i := y] ! j)"
      using "1.IH" [OF True] "1.prems" by simp
    also have "\<dots> = (if i \<le> j then y else buf ! j)"
      using True "1.prems" by (auto simp: nth_list_update)
    finally show ?thesis .
  next
    case False
    then show ?thesis
      using "1.prems" by (subst fill_graph.simps) auto
  qed
qed

lemma fill_graph_0:
  assumes "length buf = SCREEN_WIDTH"
  shows "fill_graph 0 y buf = replicate SCREEN_WIDTH y"
  using assms by (intro nth_equalityI) (simp_all add: length_fill_graph nth_fill_graph)

lemma mapBpmToY_95: "mapBpmToY 95 = 42"
proof -
  have "uint (mapBpmToY 95) = uint (42 :: uint8_t)"
    by (simp add: uint_mapBpmToY mapToCoordinate_def)
  then show ?thesis
    by (simp only: word_uint_eq_iff)
qed

lemma setup_sketch_graphBuf:
  "\<exists>s0. setup_sketch True (globals ops) = Some s0 \<and> graphBuf s0 = replicate SCREEN_WIDTH 42"
  by (simp add: setup_sketch_def globals_def Let_def fill_graph_0 mapBpmToY_95)

subsection \<open>\<open>drawUI\<close>\<close>

lemma drawUI_other [simp]:
  "bpm (drawUI s) = bpm s" "bpmDisplayed (drawUI s) = bpmDisplayed s"
  "lastBeatMs (drawUI s) = lastBeatMs s" "prevAbove (drawUI s) = prevAbove s"
  "ema (drawUI s) = ema s" "lastRefresh (drawUI s) = lastRefresh s"
  "graphBuf (drawUI s) = graphBuf s"
  "oled (drawUI s) = oled s @ frame (bpmDisplayed s) (graphBuf s)"
  by (simp_all add: drawUI_def)

lemma frame_not_Nil: "frame shown buf \<noteq> []"
  by (simp add: frame_def Let_def)

lemma graphBuf_pushGraph_update [simp]:
  "graphBuf (pushGraph v (s\<lparr>ema := e\<rparr>)) = graphBuf (pushGraph v s)"
  "graphBuf (pushGraph v (s\<lparr>bpm := b\<rparr>)) = graphBuf (pushGraph v s)"
  "graphBuf (pushGraph v (s\<lparr>bpmDisplayed := b\<rparr>)) = graphBuf (pushGraph v s)"
  by (simp_all add: pushGraph_def)

subsection \<open>The conversion\<close>

lemma refractory_nonzero: "refractoryMs < rr \<Longrightarrow> rr \<noteq> 0"
  by (auto simp: refractoryMs_def)

lemma bpm_of_rr_nonzero: "rr \<noteq> 0 \<Longrightarrow> bpm_of_rr rr = Some (int_of_ulong (60000 div rr))"
  by (simp add: bpm_of_rr_def ulong_div_def)

lemma bpm_of_rr_Some: "refractoryMs < rr \<Longrightarrow> bpm_of_rr rr = Some (int_of_ulong (60000 div rr))"
  by (simp add: bpm_of_rr_nonzero refractory_nonzero)

lemma valid_bpm_sint: "valid_bpm b \<longleftrightarrow> 60 \<le> sint b \<and> sint b \<le> 130"
  by (simp add: valid_bpm_def word_sle_eq)

subsection \<open>One iteration\<close>

lemma loop_Some: "\<exists>s'. loop ops raw now s = Some s'"
  by (simp add: loop_def Let_def bpm_of_rr_Some)

lemma loop_fields:
  assumes "loop ops raw now s = Some s'"
  shows "ema s' = ema_next ops raw (ema s)"
    and "prevAbove s' = above ops raw (ema_next ops raw (ema s))"
    and "lastBeatMs s' = (if beat_due ops raw now s then now else lastBeatMs s)"
    and "bpm s' = (if beat_valid ops raw now s then candidate now s else bpm s)"
    and "bpmDisplayed s' = (if beat_valid ops raw now s then candidate now s else bpmDisplayed s)"
    and "graphBuf s' = (if beat_valid ops raw now s then graphBuf (pushGraph (candidate now s) s)
                        else graphBuf s)"
    and "lastRefresh s' = (if 500 < now - lastRefresh s then now else lastRefresh s)"
    and "oled s' = oled s
           @ (if beat_valid ops raw now s then frame (bpmDisplayed s') (graphBuf s') else [])
           @ (if 500 < now - lastRefresh s then frame (bpmDisplayed s') (graphBuf s') else [])"
  using assms
  by (auto simp: loop_def Let_def bpm_of_rr_Some beat_valid_def beat_due_def rising_edge_def
      candidate_def split: if_splits)

lemma length_graphBuf_loop:
  assumes "loop ops raw now s = Some s'" "length (graphBuf s) = SCREEN_WIDTH"
  shows "length (graphBuf s') = SCREEN_WIDTH"
  using assms(2) by (simp add: loop_fields(6) [OF assms(1)] length_graphBuf_pushGraph)

subsection \<open>Ticks inside the refractory window\<close>

lemma loop_in_window:
  assumes "now - lastBeatMs s \<le> refractoryMs"
  shows "\<exists>s'. loop ops raw now s = Some s' \<and> lastBeatMs s' = lastBeatMs s \<and> bpm s' = bpm s
           \<and> bpmDisplayed s' = bpmDisplayed s \<and> graphBuf s' = graphBuf s"
proof -
  obtain s' where s': "loop ops raw now s = Some s'"
    using loop_Some by blast
  have "\<not> beat_due ops raw now s"
    using assms by (simp add: beat_due_def not_less)
  then have "lastBeatMs s' = lastBeatMs s" "bpm s' = bpm s" "bpmDisplayed s' = bpmDisplayed s"
    "graphBuf s' = graphBuf s"
    by (simp_all add: loop_fields(3,4,5,6) [OF s'] beat_valid_def)
  with s' show ?thesis
    by blast
qed

lemma run_in_window:
  "\<forall>(raw, now) \<in> set ticks. now - lastBeatMs s \<le> refractoryMs \<Longrightarrow>
   \<exists>s'. run ops ticks s = Some s' \<and> lastBeatMs s' = lastBeatMs s \<and> bpm s' = bpm s
     \<and> bpmDisplayed s' = bpmDisplayed s \<and> graphBuf s' = graphBuf s"
proof (induction ticks arbitrary: s)
  case Nil
  then show ?case by simp
next
  case (Cons tick ticks)
  obtain raw now where tick: "tick = (raw, now)"
    by (cases tick)
  have "now - lastBeatMs s \<le> refractoryMs"
    using Cons.prems by (simp add: tick)
  then obtain s1 where s1: "loop ops raw now s = Some s1" "lastBeatMs s1 = lastBeatMs s"
    "bpm s1 = bpm s" "bpmDisplayed s1 = bpmDisplayed s" "graphBuf s1 = graphBuf s"
    using loop_in_window by blast
  have "\<forall>(raw, now) \<in> set ticks. now - lastBeatMs s1 \<le> refractoryMs"
    using Cons.prems by (simp add: s1(2))
  then obtain s' where "run ops ticks s1 = Some s'" "lastBeatMs s' = lastBeatMs s1"
    "bpm s' = bpm s1" "bpmDisplayed s' = bpmDisplayed s1" "graphBuf s' = graphBuf s1"
    using Cons.IH by blast
  then show ?case
    by (simp add: tick s1)
qed

lemma beat_due_stamps:
  assumes "beat_due ops raw now s"
  shows "\<exists>s'. loop ops raw now s = Some s' \<and> lastBeatMs s' = now \<and> lastBeatMs s' \<noteq> lastBeatMs s"
proof -
  obtain s' where s': "loop ops raw now s = Some s'"
    using loop_Some by blast
  have "now - lastBeatMs s \<noteq> 0"
    using assms by (auto simp: beat_due_def dest: refractory_nonzero)
  then have "now \<noteq> lastBeatMs s"
    by auto
  then show ?thesis
    using assms s' by (simp add: loop_fields(3) [OF s'])
qed

subsection \<open>The invariant\<close>

lemma bpm_invariant_loop:
  assumes "bpm_invariant s"
  shows "\<exists>s'. loop ops raw now s = Some s' \<and> bpm_invariant s'"
proof -
  obtain s' where s': "loop ops raw now s = Some s'"
    using loop_Some by blast
  have "bpm_invariant s'"
    using assms unfolding bpm_invariant_def loop_fields(4,5) [OF s']
    by (simp add: beat_valid_def)
  with s' show ?thesis
    by blast
qed

lemma bpm_invariant_run:
  "bpm_invariant s \<Longrightarrow> \<exists>s'. run ops ticks s = Some s' \<and> bpm_invariant s'"
proof (induction ticks arbitrary: s)
  case Nil
  then show ?case by simp
next
  case (Cons tick ticks)
  obtain raw now where tick: "tick = (raw, now)"
    by (cases tick)
  obtain s1 where s1: "loop ops raw now s = Some s1" "bpm_invariant s1"
    using bpm_invariant_loop [OF Cons.prems] by blast
  obtain s' where "run ops ticks s1 = Some s'" "bpm_invariant s'"
    using Cons.IH [OF s1(2)] by blast
  then show ?case
    by (simp add: tick s1)
qed

lemma valid_displayed_loop:
  assumes "valid_bpm (bpmDisplayed s)"
  shows "\<exists>s'. loop ops raw now s = Some s' \<and> valid_bpm (bpmDisplayed s')"
proof -
  obtain s' where s': "loop ops raw now s = Some s'"
    using loop_Some by blast
  have "valid_bpm (bpmDisplayed s')"
    using assms by (simp add: loop_fields(5) [OF s'] beat_valid_def)
  with s' show ?thesis
    by blast
qed

lemma valid_displayed_run:
  "valid_bpm (bpmDisplayed s) \<Longrightarrow> \<exists>s'. run ops ticks s = Some s' \<and> valid_bpm (bpmDisplayed s')"
proof (induction ticks arbitrary: s)
  case Nil
  then show ?case by simp
next
  case (Cons tick ticks)
  obtain raw now where tick: "tick = (raw, now)"
    by (cases tick)
  obtain s1 where s1: "loop ops raw now s = Some s1" "valid_bpm (bpmDisplayed s1)"
    using valid_displayed_loop [OF Cons.prems] by blast
  obtain s' where "run ops ticks s1 = Some s'" "valid_bpm (bpmDisplayed s')"
    using Cons.IH [OF s1(2)] by blast
  then show ?case
    by (simp add: tick s1)
qed

lemma setup_sketch_invariant:
  "\<exists>s0. setup_sketch True (globals ops) = Some s0 \<and> bpm_invariant s0 \<and> bpmDisplayed s0 = 0"
  by (simp add: setup_sketch_def globals_def bpm_invariant_def Let_def)

lemma bpm_text_invariant:
  assumes "bpm_invariant s"
  shows "bpm_text (bpmDisplayed s)
         = (if bpmDisplayed s = 0 then PrintStr ''--'' else PrintInt (bpmDisplayed s))"
proof (cases "bpmDisplayed s = 0")
  case True
  then show ?thesis
    by (simp add: bpm_text_def word_sle_eq)
next
  case False
  then have "valid_bpm (bpmDisplayed s)"
    using assms by (simp add: bpm_invariant_def)
  then show ?thesis
    using False by (simp add: bpm_text_def valid_bpm_def)
qed

lemma frame_bpm_text: "frame shown buf ! 7 = bpm_text shown"
  by (simp add: frame_def Let_def)

subsection \<open>What the display is sent\<close>

lemma frames_simps [simp]:
  "frames [] = []" "frames ((v, buf) # shots) = frame v buf @ frames shots"
  "frames (xs @ ys) = frames xs @ frames ys"
  by (simp_all add: frames_def)

lemma loop_oled_frames:
  assumes "loop ops raw now s = Some s'"
  shows "\<exists>n. oled s' = oled s @ frames (replicate n (bpmDisplayed s', graphBuf s'))
           \<and> n = (if beat_valid ops raw now s then 1 else 0)
                 + (if 500 < now - lastRefresh s then 1 else 0)"
  by (simp add: loop_fields(8) [OF assms])

lemma frames_replicate_Ball:
  "P v \<Longrightarrow> \<forall>(shown, buf) \<in> set (replicate n (v, b)). P shown"
  by auto

lemma run_frames:
  assumes "\<And>v. valid_bpm v \<Longrightarrow> P v" "P (bpmDisplayed s)"
  shows "\<exists>s' shots. run ops ticks s = Some s' \<and> P (bpmDisplayed s')
           \<and> oled s' = oled s @ frames shots
           \<and> (\<forall>(shown, buf) \<in> set shots. P shown)"
  using assms(2)
proof (induction ticks arbitrary: s)
  case Nil
  have "run ops [] s = Some s \<and> P (bpmDisplayed s) \<and> oled s = oled s @ frames []
        \<and> (\<forall>(shown, buf) \<in> set []. P shown)"
    using Nil by simp
  then show ?case
    by (intro exI [of _ s] exI [of _ "[]"])
next
  case (Cons tick ticks)
  obtain raw now where tick: "tick = (raw, now)"
    by (cases tick)
  obtain s1 where s1: "loop ops raw now s = Some s1"
    using loop_Some by blast
  have p1: "P (bpmDisplayed s1)"
    using Cons.prems assms(1) by (simp add: loop_fields(5) [OF s1] beat_valid_def)
  obtain n where n: "oled s1 = oled s @ frames (replicate n (bpmDisplayed s1, graphBuf s1))"
    using loop_oled_frames [OF s1] by blast
  obtain s' shots where r: "run ops ticks s1 = Some s'" "P (bpmDisplayed s')"
    "oled s' = oled s1 @ frames shots" "\<forall>(shown, buf) \<in> set shots. P shown"
    using Cons.IH [OF p1] by blast
  define all where "all = replicate n (bpmDisplayed s1, graphBuf s1) @ shots"
  have "run ops (tick # ticks) s = Some s'"
    by (simp add: tick s1 r(1))
  moreover have "oled s' = oled s @ frames all"
    by (simp add: r(3) n all_def)
  moreover have "\<forall>(shown, buf) \<in> set all. P shown"
    using r(4) p1 by (auto simp: all_def)
  ultimately have "run ops (tick # ticks) s = Some s' \<and> P (bpmDisplayed s')
        \<and> oled s' = oled s @ frames all \<and> (\<forall>(shown, buf) \<in> set all. P shown)"
    using r(2) by simp
  then show ?case
    by (intro exI [of _ s'] exI [of _ all])
qed

lemma run_no_valid_beat:
  "bpmDisplayed s = 0 \<Longrightarrow> no_valid_beat ops ticks s \<Longrightarrow>
   \<exists>s' n. run ops ticks s = Some s' \<and> bpmDisplayed s' = 0 \<and> graphBuf s' = graphBuf s
     \<and> oled s' = oled s @ frames (replicate n (0, graphBuf s))"
proof (induction ticks arbitrary: s)
  case Nil
  have "run ops [] s = Some s \<and> bpmDisplayed s = 0 \<and> graphBuf s = graphBuf s
        \<and> oled s = oled s @ frames (replicate 0 (0, graphBuf s))"
    using Nil by simp
  then show ?case
    by blast
next
  case (Cons tick ticks)
  obtain raw now where tick: "tick = (raw, now)"
    by (cases tick)
  obtain s1 where s1: "loop ops raw now s = Some s1"
    using loop_Some by blast
  have nv: "\<not> beat_valid ops raw now s" and rest: "no_valid_beat ops ticks s1"
    using Cons.prems(2) by (simp_all add: tick s1)
  have d1: "bpmDisplayed s1 = 0" and g1: "graphBuf s1 = graphBuf s"
    using nv Cons.prems(1) by (simp_all add: loop_fields(5,6) [OF s1])
  obtain k where k: "oled s1 = oled s @ frames (replicate k (0, graphBuf s))"
    using loop_oled_frames [OF s1] by (auto simp: d1 g1)
  obtain s' m where r: "run ops ticks s1 = Some s'" "bpmDisplayed s' = 0"
    "graphBuf s' = graphBuf s1" "oled s' = oled s1 @ frames (replicate m (0, graphBuf s1))"
    using Cons.IH [OF d1 rest] by blast
  have "run ops (tick # ticks) s = Some s'"
    by (simp add: tick s1 r(1))
  moreover have "oled s' = oled s @ frames (replicate (k + m) (0, graphBuf s))"
    by (simp add: r(4) k g1 replicate_add)
  ultimately show ?case
    using r(2,3) g1 by metis
qed

lemma bpm_text_0: "bpm_text 0 = PrintStr ''--''"
  by (simp add: bpm_text_def word_sle_eq)

lemma bpm_text_valid: "valid_bpm v \<Longrightarrow> bpm_text v = PrintInt v"
  by (simp add: bpm_text_def valid_bpm_def)

lemma valid_beat_shows:
  assumes "beat_valid ops raw now s"
  shows "\<exists>s'. loop ops raw now s = Some s' \<and> bpm s' = candidate now s
           \<and> bpmDisplayed s' = candidate now s \<and> valid_bpm (bpmDisplayed s')
           \<and> bpm_text (bpmDisplayed s') = PrintInt (candidate now s)
           \<and> oled s' = oled s @ frame (candidate now s) (graphBuf s')
                 @ (if 500 < now - lastRefresh s then frame (candidate now s) (graphBuf s')
                    else [])"
proof -
  obtain s' where s': "loop ops raw now s = Some s'"
    using loop_Some by blast
  have v: "valid_bpm (candidate now s)"
    using assms by (simp add: beat_valid_def)
  have b: "bpm s' = candidate now s" and d: "bpmDisplayed s' = candidate now s"
    using assms by (simp_all add: loop_fields(4,5) [OF s'])
  have o: "oled s' = oled s @ frame (candidate now s) (graphBuf s')
                 @ (if 500 < now - lastRefresh s then frame (candidate now s) (graphBuf s')
                    else [])"
    using assms by (simp add: loop_fields(8) [OF s'] d)
  show ?thesis
    using s' b d v o bpm_text_valid [OF v] by (simp add: d)
qed

lemma no_beat_shows:
  assumes "\<not> beat_valid ops raw now s"
  shows "\<exists>s'. loop ops raw now s = Some s' \<and> bpmDisplayed s' = bpmDisplayed s
           \<and> oled s' = oled s @ (if 500 < now - lastRefresh s
                                  then frame (bpmDisplayed s) (graphBuf s) else [])"
proof -
  obtain s' where s': "loop ops raw now s = Some s'"
    using loop_Some by blast
  have d: "bpmDisplayed s' = bpmDisplayed s" and g: "graphBuf s' = graphBuf s"
    using assms by (simp_all add: loop_fields(5,6) [OF s'])
  have "oled s' = oled s @ (if 500 < now - lastRefresh s
                            then frame (bpmDisplayed s) (graphBuf s) else [])"
    using assms by (simp add: loop_fields(8) [OF s'] d g)
  with s' d show ?thesis
    by blast
qed

text \<open>The invariant, its consequences for one iteration and for a run, in one statement.\<close>

lemma bpm_invariant_facts:
  "(\<exists>s0. setup_sketch True (globals ops) = Some s0 \<and> bpm_invariant s0 \<and> bpmDisplayed s0 = 0)
   \<and> (bpm_invariant s \<longrightarrow> (\<exists>s'. loop ops raw now s = Some s' \<and> bpm_invariant s'))
   \<and> (bpm_invariant s \<longrightarrow> (\<exists>s'. run ops ticks s = Some s' \<and> bpm_invariant s'))
   \<and> (\<exists>s0 s'. setup_sketch True (globals ops) = Some s0 \<and> run ops ticks s0 = Some s'
         \<and> bpm_invariant s')
   \<and> (bpm_invariant s \<longleftrightarrow>
        (bpm s = 0 \<or> 60 \<le> sint (bpm s) \<and> sint (bpm s) \<le> 130)
        \<and> (bpmDisplayed s = 0 \<or> 60 \<le> sint (bpmDisplayed s) \<and> sint (bpmDisplayed s) \<le> 130))
   \<and> frame (bpmDisplayed s) (graphBuf s) ! 7 = bpm_text (bpmDisplayed s)
   \<and> (bpm_invariant s \<longrightarrow>
        bpm_text (bpmDisplayed s)
        = (if bpmDisplayed s = 0 then PrintStr ''--'' else PrintInt (bpmDisplayed s)))
   \<and> (bpmDisplayed s = 0 \<and> \<not> beat_valid ops raw now s \<longrightarrow>
        (\<exists>s'. loop ops raw now s = Some s' \<and> bpmDisplayed s' = 0))
   \<and> (valid_bpm (bpmDisplayed s) \<longrightarrow>
        (\<exists>s'. loop ops raw now s = Some s' \<and> valid_bpm (bpmDisplayed s'))
        \<and> (\<exists>s'. run ops ticks s = Some s' \<and> valid_bpm (bpmDisplayed s')))"
proof -
  obtain s' where s': "loop ops raw now s = Some s'"
    using loop_Some by blast
  obtain s0 where s0: "setup_sketch True (globals ops) = Some s0" "bpm_invariant s0"
    "bpmDisplayed s0 = 0"
    using setup_sketch_invariant by blast
  have boot: "\<exists>s0 s'. setup_sketch True (globals ops) = Some s0 \<and> run ops ticks s0 = Some s'
         \<and> bpm_invariant s'"
    using s0 bpm_invariant_run [OF s0(2)] by blast
  have unfold: "bpm_invariant s \<longleftrightarrow>
        (bpm s = 0 \<or> 60 \<le> sint (bpm s) \<and> sint (bpm s) \<le> 130)
        \<and> (bpmDisplayed s = 0 \<or> 60 \<le> sint (bpmDisplayed s) \<and> sint (bpmDisplayed s) \<le> 130)"
    by (simp add: bpm_invariant_def valid_bpm_sint)
  have until: "\<exists>s'. loop ops raw now s = Some s' \<and> bpmDisplayed s' = 0"
    if "bpmDisplayed s = 0 \<and> \<not> beat_valid ops raw now s"
    using that s' by (simp add: loop_fields(5) [OF s'])
  have after: "(\<exists>s'. loop ops raw now s = Some s' \<and> valid_bpm (bpmDisplayed s'))
        \<and> (\<exists>s'. run ops ticks s = Some s' \<and> valid_bpm (bpmDisplayed s'))"
    if "valid_bpm (bpmDisplayed s)"
    using that valid_displayed_loop valid_displayed_run by blast
  show ?thesis
    using s0 boot unfold until after bpm_invariant_loop [of s ops raw now]
      bpm_invariant_run [of s ops ticks] bpm_text_invariant [of s]
      frame_bpm_text [of "bpmDisplayed s" "graphBuf s"]
    by blast
qed

subsection \<open>The concrete state\<close>

lemma rising_edge_idle: "rising_edge exact_ops 600 (idle_state t r)"
  by (simp add: rising_edge_def above_def ema_next_def emaAlpha_def thresholdDelta_def
      exact_ops_def idle_state_def)

lemma idle_state_fields [simp]:
  "lastBeatMs (idle_state t r) = t" "lastRefresh (idle_state t r) = r"
  "bpm (idle_state t r) = 0" "bpmDisplayed (idle_state t r) = 0"
  "prevAbove (idle_state t r) = False" "oled (idle_state t r) = []"
  "length (graphBuf (idle_state t r)) = SCREEN_WIDTH"
  by (simp_all add: idle_state_def)

text \<open>The state \<open>setup\<close> leaves is the state at rest with no beat and no refresh yet.\<close>

lemma setup_sketch_idle:
  "map_option (\<lambda>s. s\<lparr>oled := []\<rparr>) (setup_sketch True (globals exact_ops))
   = Some (idle_state 0 0)"
  by (simp add: setup_sketch_def globals_def idle_state_def Let_def fill_graph_0 mapBpmToY_95
      exact_ops_def)

lemma candidate_idle:
  "candidate 2001 (idle_state 1000 r) = 59" "candidate 2000 (idle_state 1000 r) = 60"
  "candidate 1461 (idle_state 1000 r) = 130" "candidate 1458 (idle_state 1000 r) = 131"
  "candidate 2500 (idle_state 1000 r) = 40"
  by (simp_all add: candidate_def int_of_ulong_def)

section \<open>The claims\<close>

text \<open>
  C1. Range validation accepts a BPM candidate if and only if it lies between 60 and 130,
  both bounds included. Whenever an iteration computes a candidate (a rising edge that
  passes the refractory check, with a previous beat), an accepted candidate becomes the
  persisted and the displayed BPM and is pushed on the graph, and a rejected one leaves
  them as they were. 59 and 131 are rejected, 60 and 130 are accepted.
\<close>

theorem range_validation:
  "beat_due ops raw now s \<Longrightarrow> lastBeatMs s \<noteq> 0 \<Longrightarrow>
     (\<exists>s'. loop ops raw now s = Some s' \<and>
        (if 60 \<le> sint (candidate now s) \<and> sint (candidate now s) \<le> 130
         then bpm s' = candidate now s \<and> bpmDisplayed s' = candidate now s
              \<and> graphBuf s' = graphBuf (pushGraph (candidate now s) s)
         else bpm s' = bpm s \<and> bpmDisplayed s' = bpmDisplayed s \<and> graphBuf s' = graphBuf s))
     \<and> (valid_bpm b \<longleftrightarrow> 60 \<le> sint b \<and> sint b \<le> 130)
     \<and> \<not> valid_bpm 59 \<and> valid_bpm 60 \<and> valid_bpm 130 \<and> \<not> valid_bpm 131"
proof (intro conjI)
  assume due: "beat_due ops raw now s" and prev: "lastBeatMs s \<noteq> 0"
  obtain s' where s': "loop ops raw now s = Some s'"
    using loop_Some by blast
  have v: "beat_valid ops raw now s \<longleftrightarrow>
             60 \<le> sint (candidate now s) \<and> sint (candidate now s) \<le> 130"
    using due prev by (simp add: beat_valid_def valid_bpm_sint)
  show "\<exists>s'. loop ops raw now s = Some s' \<and>
        (if 60 \<le> sint (candidate now s) \<and> sint (candidate now s) \<le> 130
         then bpm s' = candidate now s \<and> bpmDisplayed s' = candidate now s
              \<and> graphBuf s' = graphBuf (pushGraph (candidate now s) s)
         else bpm s' = bpm s \<and> bpmDisplayed s' = bpmDisplayed s \<and> graphBuf s' = graphBuf s)"
    using s' loop_fields(4,5,6) [OF s'] unfolding v by auto
  show "valid_bpm b \<longleftrightarrow> 60 \<le> sint b \<and> sint b \<le> 130"
    by (rule valid_bpm_sint)
  show "\<not> valid_bpm 59" "valid_bpm 60" "valid_bpm 130" "\<not> valid_bpm 131"
    by (simp_all add: valid_bpm_def)
qed

theorem range_validation_witness:
  "beat_due exact_ops 600 2001 (idle_state 1000 2000) \<and> lastBeatMs (idle_state 1000 2000) \<noteq> 0
   \<and> candidate 2001 (idle_state 1000 2000) = 59
   \<and> (\<exists>s'. loop exact_ops 600 2001 (idle_state 1000 2000) = Some s' \<and> bpm s' = 0)
   \<and> candidate 2000 (idle_state 1000 2000) = 60
   \<and> (\<exists>s'. loop exact_ops 600 2000 (idle_state 1000 2000) = Some s' \<and> bpm s' = 60)
   \<and> candidate 1461 (idle_state 1000 2000) = 130
   \<and> (\<exists>s'. loop exact_ops 600 1461 (idle_state 1000 2000) = Some s' \<and> bpm s' = 130)
   \<and> candidate 1458 (idle_state 1000 2000) = 131
   \<and> (\<exists>s'. loop exact_ops 600 1458 (idle_state 1000 2000) = Some s' \<and> bpm s' = 0)"
proof -
  have due: "beat_due exact_ops 600 now (idle_state 1000 2000)"
    if "now \<in> {2001, 2000, 1461, 1458}" for now
    using that by (auto simp: beat_due_def rising_edge_idle refractoryMs_def)
  have prev: "lastBeatMs (idle_state 1000 2000) \<noteq> 0"
    by simp
  show ?thesis
    using range_validation [OF due prev, of 2001 0] range_validation [OF due prev, of 2000 0]
      range_validation [OF due prev, of 1461 0] range_validation [OF due prev, of 1458 0]
      due [of 2001] prev
    by (auto simp: candidate_idle)
qed

text \<open>
  C2, as the claim states it, fails: the iteration that rejects a candidate can redraw the
  display, because the periodic refresh at the end of \<open>loop\<close> is independent of the
  beat, and the iteration sets the edge flag. At rest with the last beat at 1000 ms and
  the last refresh at 1000 ms, a rising edge at 2500 ms gives the candidate 40, which is
  rejected, and the display is redrawn.
\<close>

theorem rejected_candidate_redraw_counterexample:
  "beat_due exact_ops 600 2500 (idle_state 1000 1000)
   \<and> lastBeatMs (idle_state 1000 1000) \<noteq> 0
   \<and> \<not> valid_bpm (candidate 2500 (idle_state 1000 1000))
   \<and> map_option oled (loop exact_ops 600 2500 (idle_state 1000 1000))
       \<noteq> Some (oled (idle_state 1000 1000))
   \<and> map_option prevAbove (loop exact_ops 600 2500 (idle_state 1000 1000))
       \<noteq> Some (prevAbove (idle_state 1000 1000))"
proof -
  obtain s' where s': "loop exact_ops 600 2500 (idle_state 1000 1000) = Some s'"
    using loop_Some by blast
  have due: "beat_due exact_ops 600 2500 (idle_state 1000 1000)"
    by (simp add: beat_due_def rising_edge_idle refractoryMs_def)
  have rej: "\<not> valid_bpm (candidate 2500 (idle_state 1000 1000))"
    by (simp add: candidate_idle valid_bpm_def)
  have "oled s' = frame (bpmDisplayed s') (graphBuf s')"
    using rej by (simp add: loop_fields(8) [OF s'] beat_valid_def)
  then have o: "oled s' \<noteq> []"
    by (simp add: frame_not_Nil)
  have p: "prevAbove s'"
    using rising_edge_idle [of 1000 1000] by (simp add: loop_fields(2) [OF s'] rising_edge_def)
  show ?thesis
    using due rej o p by (simp add: s')
qed

text \<open>
  C2, amended. In every iteration that computes a BPM candidate and rejects it as out of
  range, the persisted BPM, the displayed BPM and every slot of the trend buffer keep their
  values, and the last-beat timestamp becomes the current time. The rejected beat itself
  draws nothing: the display is redrawn in that iteration exactly when the periodic
  refresh is due (more than 500 ms since the last one), which then also moves
  \<open>lastRefresh\<close> to the current time. The edge flag and the baseline are updated as in
  every iteration.
\<close>

theorem rejected_candidate_frame:
  "beat_due ops raw now s \<Longrightarrow> lastBeatMs s \<noteq> 0 \<Longrightarrow> \<not> valid_bpm (candidate now s) \<Longrightarrow>
     \<exists>s'. loop ops raw now s = Some s'
       \<and> bpm s' = bpm s \<and> bpmDisplayed s' = bpmDisplayed s \<and> graphBuf s' = graphBuf s
       \<and> lastBeatMs s' = now
       \<and> oled s' = (if 500 < now - lastRefresh s
                    then oled s @ frame (bpmDisplayed s) (graphBuf s) else oled s)
       \<and> lastRefresh s' = (if 500 < now - lastRefresh s then now else lastRefresh s)
       \<and> prevAbove s' \<and> ema s' = ema_next ops raw (ema s)"
proof -
  assume due: "beat_due ops raw now s" and rej: "\<not> valid_bpm (candidate now s)"
  obtain s' where s': "loop ops raw now s = Some s'"
    using loop_Some by blast
  have nv: "\<not> beat_valid ops raw now s"
    using rej by (simp add: beat_valid_def)
  have keep: "bpm s' = bpm s" "bpmDisplayed s' = bpmDisplayed s" "graphBuf s' = graphBuf s"
    using nv by (simp_all add: loop_fields(4,5,6) [OF s'])
  have stamp: "lastBeatMs s' = now"
    using due by (simp add: loop_fields(3) [OF s'])
  have draw: "oled s' = (if 500 < now - lastRefresh s
                         then oled s @ frame (bpmDisplayed s) (graphBuf s) else oled s)"
    using nv by (simp add: loop_fields(8) [OF s'] keep)
  have edge: "prevAbove s'"
    using due by (simp add: loop_fields(2) [OF s'] beat_due_def rising_edge_def)
  show ?thesis
    using s' keep stamp draw edge loop_fields(1,7) [OF s'] by blast
qed

theorem rejected_candidate_frame_witness:
  "beat_due exact_ops 600 2500 (idle_state 1000 2400)
   \<and> lastBeatMs (idle_state 1000 2400) \<noteq> 0
   \<and> \<not> valid_bpm (candidate 2500 (idle_state 1000 2400))
   \<and> (\<exists>s'. loop exact_ops 600 2500 (idle_state 1000 2400) = Some s'
         \<and> bpm s' = 0 \<and> bpmDisplayed s' = 0
         \<and> graphBuf s' = graphBuf (idle_state 1000 2400)
         \<and> lastBeatMs s' = 2500 \<and> oled s' = [] \<and> lastRefresh s' = 2400)"
proof -
  have due: "beat_due exact_ops 600 2500 (idle_state 1000 2400)"
    by (simp add: beat_due_def rising_edge_idle refractoryMs_def)
  have prev: "lastBeatMs (idle_state 1000 2400) \<noteq> 0"
    by simp
  have rej: "\<not> valid_bpm (candidate 2500 (idle_state 1000 2400))"
    by (simp add: candidate_idle valid_bpm_def)
  show ?thesis
    using due prev rej rejected_candidate_frame [OF due prev rej] by auto
qed

text \<open>
  C3, as the claim states it, fails: of two rising-edge candidates less than 250 ms apart,
  it need not be exactly one that updates the timestamp. With the last beat at 1000 ms,
  the candidates at 1100 ms and at 1200 ms (the signal falls below the threshold in
  between, at 1150 ms) are both inside the refractory window and both are discarded: the
  timestamp is 1000 after the first and still 1000 after the second.
\<close>

theorem refractory_counterexample:
  "rising_edge exact_ops 600 (idle_state 1000 1000)
   \<and> map_option lastBeatMs (run exact_ops [(600, 1100)] (idle_state 1000 1000)) = Some 1000
   \<and> map_option (rising_edge exact_ops 600)
        (run exact_ops [(600, 1100), (500, 1150)] (idle_state 1000 1000)) = Some True
   \<and> map_option lastBeatMs
        (run exact_ops [(600, 1100), (500, 1150), (600, 1200)] (idle_state 1000 1000))
       = Some 1000"
proof -
  obtain s1 where s1: "loop exact_ops 600 1100 (idle_state 1000 1000) = Some s1"
    using loop_Some by blast
  obtain s2 where s2: "loop exact_ops 500 1150 s1 = Some s2"
    using loop_Some by blast
  obtain s3 where s3: "loop exact_ops 600 1200 s2 = Some s3"
    using loop_Some by blast
  have t1: "lastBeatMs s1 = 1000"
    by (simp add: loop_fields(3) [OF s1] beat_due_def refractoryMs_def)
  have e1: "ema s1 = 2582 / 5"
    by (simp add: loop_fields(1) [OF s1] ema_next_def emaAlpha_def exact_ops_def idle_state_def)
  have t2: "lastBeatMs s2 = 1000"
    by (simp add: loop_fields(3) [OF s2] beat_due_def refractoryMs_def t1)
  have e2: "ema s2 = 51558 / 100"
    by (simp add: loop_fields(1) [OF s2] ema_next_def emaAlpha_def exact_ops_def e1)
  have p2: "\<not> prevAbove s2"
    by (simp add: loop_fields(1,2) [OF s2] above_def ema_next_def emaAlpha_def exact_ops_def
        thresholdDelta_def e1)
  have r2: "rising_edge exact_ops 600 s2"
    using p2 by (simp add: rising_edge_def above_def ema_next_def emaAlpha_def exact_ops_def
        thresholdDelta_def e2)
  have t3: "lastBeatMs s3 = 1000"
    by (simp add: loop_fields(3) [OF s3] beat_due_def refractoryMs_def t2)
  show ?thesis
    by (simp add: rising_edge_idle s1 s2 s3 t1 t3 r2)
qed

text \<open>
  C3, amended. Of two rising-edge candidates whose times differ by at most the refractory
  period (250 ms), at most one updates the last-beat timestamp. When the first is accepted
  it sets the timestamp to its time, and every later tick whose time is within the
  refractory period of it, the second candidate among them, leaves the timestamp, the BPM,
  the displayed BPM and the trend buffer unchanged. A single candidate inside the
  refractory window is discarded in the same way, and an iteration changes the timestamp
  only for a rising edge whose elapsed time since the timestamp strictly exceeds the
  refractory period. Times are compared by unsigned subtraction modulo \<open>2 ^ 32\<close>.
\<close>

theorem refractory_enforcement:
  "(beat_due ops raw t1 s \<and> (\<forall>(r, t) \<in> set ticks. t - t1 \<le> refractoryMs) \<longrightarrow>
      (\<exists>s1 s2. loop ops raw t1 s = Some s1 \<and> lastBeatMs s1 = t1 \<and> lastBeatMs s1 \<noteq> lastBeatMs s
         \<and> run ops ticks s1 = Some s2 \<and> lastBeatMs s2 = t1 \<and> bpm s2 = bpm s1
         \<and> bpmDisplayed s2 = bpmDisplayed s1 \<and> graphBuf s2 = graphBuf s1))
   \<and> (rising_edge ops raw s \<and> now - lastBeatMs s \<le> refractoryMs \<longrightarrow>
      (\<exists>s'. loop ops raw now s = Some s' \<and> lastBeatMs s' = lastBeatMs s \<and> bpm s' = bpm s
         \<and> bpmDisplayed s' = bpmDisplayed s \<and> graphBuf s' = graphBuf s))
   \<and> (\<forall>s'. loop ops raw now s = Some s' \<and> lastBeatMs s' \<noteq> lastBeatMs s \<longrightarrow>
         rising_edge ops raw s \<and> refractoryMs < now - lastBeatMs s \<and> lastBeatMs s' = now)"
proof -
  have first: "\<exists>s1 s2. loop ops raw t1 s = Some s1 \<and> lastBeatMs s1 = t1
         \<and> lastBeatMs s1 \<noteq> lastBeatMs s
         \<and> run ops ticks s1 = Some s2 \<and> lastBeatMs s2 = t1 \<and> bpm s2 = bpm s1
         \<and> bpmDisplayed s2 = bpmDisplayed s1 \<and> graphBuf s2 = graphBuf s1"
    if a: "beat_due ops raw t1 s \<and> (\<forall>(r, t) \<in> set ticks. t - t1 \<le> refractoryMs)"
  proof -
    obtain s1 where s1: "loop ops raw t1 s = Some s1" "lastBeatMs s1 = t1"
      "lastBeatMs s1 \<noteq> lastBeatMs s"
      using a beat_due_stamps by blast
    have "\<forall>(r, t) \<in> set ticks. t - lastBeatMs s1 \<le> refractoryMs"
      using a by (simp add: s1(2))
    then obtain s2 where "run ops ticks s1 = Some s2" "lastBeatMs s2 = lastBeatMs s1"
      "bpm s2 = bpm s1" "bpmDisplayed s2 = bpmDisplayed s1" "graphBuf s2 = graphBuf s1"
      using run_in_window by blast
    with s1 show ?thesis
      by auto
  qed
  have second: "\<exists>s'. loop ops raw now s = Some s' \<and> lastBeatMs s' = lastBeatMs s \<and> bpm s' = bpm s
         \<and> bpmDisplayed s' = bpmDisplayed s \<and> graphBuf s' = graphBuf s"
    if "rising_edge ops raw s \<and> now - lastBeatMs s \<le> refractoryMs"
    using that loop_in_window by blast
  have only: "rising_edge ops raw s \<and> refractoryMs < now - lastBeatMs s \<and> lastBeatMs s' = now"
    if a: "loop ops raw now s = Some s' \<and> lastBeatMs s' \<noteq> lastBeatMs s" for s'
  proof -
    have s': "loop ops raw now s = Some s'"
      using a by simp
    have "beat_due ops raw now s \<and> lastBeatMs s' = now"
      using a by (auto simp: loop_fields(3) [OF s'] split: if_splits)
    then show ?thesis
      by (simp add: beat_due_def)
  qed
  show ?thesis
    using first second only by blast
qed

theorem refractory_enforcement_witness:
  "beat_due exact_ops 600 1300 (idle_state 1000 1000)
   \<and> (1350 :: c_ulong) - 1300 \<le> refractoryMs \<and> (1400 :: c_ulong) - 1300 \<le> refractoryMs
   \<and> (\<exists>s1 s2. loop exact_ops 600 1300 (idle_state 1000 1000) = Some s1 \<and> lastBeatMs s1 = 1300
         \<and> run exact_ops [(500, 1350), (600, 1400)] s1 = Some s2 \<and> lastBeatMs s2 = 1300)
   \<and> rising_edge exact_ops 600 (idle_state 1000 1000)
   \<and> (1100 :: c_ulong) - lastBeatMs (idle_state 1000 1000) \<le> refractoryMs
   \<and> (\<exists>s'. loop exact_ops 600 1100 (idle_state 1000 1000) = Some s' \<and> lastBeatMs s' = 1000)"
proof -
  have due: "beat_due exact_ops 600 1300 (idle_state 1000 1000)"
    by (simp add: beat_due_def rising_edge_idle refractoryMs_def)
  have win: "\<forall>(r, t) \<in> set [(500 :: c_int, 1350 :: c_ulong), (600, 1400)]. t - 1300 \<le> refractoryMs"
    by (simp add: refractoryMs_def)
  have edge: "rising_edge exact_ops 600 (idle_state 1000 1000)"
    by (rule rising_edge_idle)
  have near: "(1100 :: c_ulong) - lastBeatMs (idle_state 1000 1000) \<le> refractoryMs"
    by (simp add: refractoryMs_def)
  have a: "\<exists>s1 s2. loop exact_ops 600 1300 (idle_state 1000 1000) = Some s1 \<and> lastBeatMs s1 = 1300
         \<and> run exact_ops [(500, 1350), (600, 1400)] s1 = Some s2 \<and> lastBeatMs s2 = 1300"
    using due win
      refractory_enforcement [of exact_ops 600 1300 "idle_state 1000 1000"
        "[(500, 1350), (600, 1400)]" 1100]
    by blast
  have b: "\<exists>s'. loop exact_ops 600 1100 (idle_state 1000 1000) = Some s' \<and> lastBeatMs s' = 1000"
    using edge near
      refractory_enforcement [of exact_ops 600 1300 "idle_state 1000 1000"
        "[(500, 1350), (600, 1400)]" 1100]
    by auto
  have win': "(1350 :: c_ulong) - 1300 \<le> refractoryMs" "(1400 :: c_ulong) - 1300 \<le> refractoryMs"
    by (simp_all add: refractoryMs_def)
  show ?thesis
    using due win' edge near a b by blast
qed

text \<open>
  C4, as the claim states it, fails: the refractory check of line 164 comes before the
  test for the sentinel and reads the sentinel 0 as a time, so a first candidate during
  the first 250 ms is discarded like any candidate inside the refractory window. In the
  state that \<open>setup\<close> leaves, a rising edge at 100 ms leaves the timestamp at 0.
\<close>

theorem first_candidate_counterexample:
  "rising_edge exact_ops 600 (idle_state 0 0)
   \<and> lastBeatMs (idle_state 0 0) = 0
   \<and> map_option lastBeatMs (loop exact_ops 600 100 (idle_state 0 0)) = Some 0
   \<and> map_option lastBeatMs (loop exact_ops 600 100 (idle_state 0 0)) \<noteq> Some 100"
proof -
  obtain s' where s': "loop exact_ops 600 100 (idle_state 0 0) = Some s'"
    using loop_Some by blast
  have "\<not> beat_due exact_ops 600 100 (idle_state 0 0)"
    by (simp add: beat_due_def refractoryMs_def)
  then have "lastBeatMs s' = 0"
    by (simp add: loop_fields(3) [OF s'])
  then show ?thesis
    by (simp add: s' rising_edge_idle)
qed

text \<open>
  C4, amended. For every rising-edge candidate that occurs while the last-beat timestamp
  still holds its sentinel 0, no interval and no BPM is produced: the BPM, the displayed
  BPM and the trend buffer are unchanged. The candidate sets the timestamp to the current
  time if the current time exceeds the refractory period of 250 ms; otherwise it is
  discarded and the timestamp stays 0.
\<close>

theorem first_candidate:
  "rising_edge ops raw s \<Longrightarrow> lastBeatMs s = 0 \<Longrightarrow>
     \<exists>s'. loop ops raw now s = Some s'
       \<and> bpm s' = bpm s \<and> bpmDisplayed s' = bpmDisplayed s \<and> graphBuf s' = graphBuf s
       \<and> lastBeatMs s' = (if refractoryMs < now then now else 0)"
proof -
  assume edge: "rising_edge ops raw s" and first: "lastBeatMs s = 0"
  obtain s' where s': "loop ops raw now s = Some s'"
    using loop_Some by blast
  have nv: "\<not> beat_valid ops raw now s"
    using first by (simp add: beat_valid_def)
  have due: "beat_due ops raw now s \<longleftrightarrow> refractoryMs < now"
    using edge first by (simp add: beat_due_def)
  have "bpm s' = bpm s" "bpmDisplayed s' = bpmDisplayed s" "graphBuf s' = graphBuf s"
    "lastBeatMs s' = (if refractoryMs < now then now else 0)"
    using nv first by (simp_all add: loop_fields(3,4,5,6) [OF s'] due)
  with s' show ?thesis
    by blast
qed

theorem first_candidate_witness:
  "rising_edge exact_ops 600 (idle_state 0 0) \<and> lastBeatMs (idle_state 0 0) = 0
   \<and> (\<exists>s'. loop exact_ops 600 300 (idle_state 0 0) = Some s' \<and> bpm s' = 0
         \<and> bpmDisplayed s' = 0 \<and> graphBuf s' = graphBuf (idle_state 0 0)
         \<and> lastBeatMs s' = 300)"
proof -
  have edge: "rising_edge exact_ops 600 (idle_state 0 0)"
    by (rule rising_edge_idle)
  have first: "lastBeatMs (idle_state 0 0) = 0"
    by simp
  show ?thesis
    using edge first first_candidate [OF edge first, of 300] by (auto simp: refractoryMs_def)
qed

text \<open>
  C5. No iteration divides by zero: \<open>loop\<close> always returns a state. The division
  \<open>60000UL / rr\<close> is reached only by an accepted beat, whose interval exceeds the
  refractory period and is therefore positive; only the interval 0 would make the
  conversion fail, and a tick at the very time of the last beat computes no candidate and
  changes neither the BPM, nor the displayed BPM, nor the graph, nor the timestamp.
\<close>

theorem no_division_by_zero:
  "(\<exists>s'. loop ops raw now s = Some s')
   \<and> (bpm_of_rr rr = None \<longleftrightarrow> rr = 0)
   \<and> (beat_due ops raw now s \<longrightarrow> refractoryMs < now - lastBeatMs s \<and> 0 < now - lastBeatMs s)
   \<and> (now - lastBeatMs s = 0 \<longrightarrow>
        (\<exists>s'. loop ops raw now s = Some s' \<and> bpm s' = bpm s \<and> bpmDisplayed s' = bpmDisplayed s
           \<and> graphBuf s' = graphBuf s \<and> lastBeatMs s' = lastBeatMs s))"
proof (intro conjI impI)
  obtain s' where s': "loop ops raw now s = Some s'"
    using loop_Some by blast
  then show "\<exists>s'. loop ops raw now s = Some s'"
    by blast
  show "bpm_of_rr rr = None \<longleftrightarrow> rr = 0"
    by (simp add: bpm_of_rr_def ulong_div_def)
  show "refractoryMs < now - lastBeatMs s" if "beat_due ops raw now s"
    using that by (simp add: beat_due_def)
  show "0 < now - lastBeatMs s" if "beat_due ops raw now s"
    using that by (auto simp: beat_due_def word_greater_zero_iff dest: refractory_nonzero)
  show "\<exists>s'. loop ops raw now s = Some s' \<and> bpm s' = bpm s \<and> bpmDisplayed s' = bpmDisplayed s
           \<and> graphBuf s' = graphBuf s \<and> lastBeatMs s' = lastBeatMs s"
    if "now - lastBeatMs s = 0"
  proof -
    have "\<not> beat_due ops raw now s"
      using that by (simp add: beat_due_def)
    then show ?thesis
      using s' loop_fields(3,4,5,6) [OF s'] by (simp add: beat_valid_def)
  qed
qed

theorem no_division_by_zero_witness:
  "beat_due exact_ops 600 2000 (idle_state 1000 2000)
   \<and> (0 :: c_ulong) < 2000 - lastBeatMs (idle_state 1000 2000)
   \<and> (1000 :: c_ulong) - lastBeatMs (idle_state 1000 2000) = 0
   \<and> (\<exists>s'. loop exact_ops 600 1000 (idle_state 1000 2000) = Some s' \<and> bpm s' = 0
         \<and> lastBeatMs s' = 1000)"
proof -
  have due: "beat_due exact_ops 600 2000 (idle_state 1000 2000)"
    by (simp add: beat_due_def rising_edge_idle refractoryMs_def)
  have zero: "(1000 :: c_ulong) - lastBeatMs (idle_state 1000 2000) = 0"
    by simp
  show ?thesis
    using due zero no_division_by_zero [of exact_ops 600 2000 "idle_state 1000 2000" 0]
      no_division_by_zero [of exact_ops 600 1000 "idle_state 1000 2000" 0]
    by auto
qed

text \<open>
  C6. The conversion divides 60000 by the interval in milliseconds with the unsigned
  integer division, which truncates: the quotient \<open>q\<close> is the floor of the exact
  quotient, \<open>q * rr \<le> 60000 < (q + 1) * rr\<close>. The quotient is then
  cast to \<open>int\<close>; for every interval above 1 ms, hence for every interval the loop
  converts (they exceed the refractory period), it fits and the cast keeps it. An
  interval of 500 ms gives 120, 1000 ms gives 60 and 461 ms gives 130.
\<close>

theorem bpm_of_rr_truncates:
  "rr \<noteq> 0 \<Longrightarrow>
     (\<exists>q. ulong_div 60000 rr = Some q \<and> bpm_of_rr rr = Some (int_of_ulong q)
        \<and> uint q = 60000 div uint rr
        \<and> uint q * uint rr \<le> 60000 \<and> 60000 < (uint q + 1) * uint rr
        \<and> (1 < rr \<longrightarrow> sint (int_of_ulong q) = 60000 div uint rr))
     \<and> bpm_of_rr 500 = Some 120 \<and> bpm_of_rr 1000 = Some 60 \<and> bpm_of_rr 461 = Some 130"
proof (intro conjI)
  assume nz: "rr \<noteq> 0"
  define q where "q = 60000 div rr"
  have d: "ulong_div 60000 rr = Some q"
    using nz by (simp add: ulong_div_def q_def)
  have b: "bpm_of_rr rr = Some (int_of_ulong q)"
    by (simp add: bpm_of_rr_def d)
  have u: "uint q = 60000 div uint rr"
    by (simp add: q_def uint_div)
  have pos: "0 < uint rr"
    using nz by (simp add: word_greater_zero_iff [symmetric] word_less_def)
  have f: "uint q * uint rr \<le> 60000" "60000 < (uint q + 1) * uint rr"
  proof -
    have "60000 = uint q * uint rr + 60000 mod uint rr"
      by (simp add: u)
    moreover have "0 \<le> 60000 mod uint rr" "60000 mod uint rr < uint rr"
      using pos by simp_all
    ultimately show "uint q * uint rr \<le> 60000" "60000 < (uint q + 1) * uint rr"
      by (simp_all add: distrib_right)
  qed
  have c: "sint (int_of_ulong q) = 60000 div uint rr" if "1 < rr"
  proof -
    have "2 \<le> uint rr"
      using that by (simp add: word_less_def)
    then have "60000 div uint rr \<le> 60000 div 2"
      by (intro zdiv_mono2) simp_all
    then have hi: "uint q < 32768"
      by (simp add: u)
    have "sint (int_of_ulong q) = signed_take_bit 15 (uint q)"
      by (simp add: int_of_ulong_def signed_ucast_eq)
    also have "\<dots> = uint q"
    proof (rule signed_take_bit_int_eq_self)
      show "- (2 ^ 15) \<le> uint q"
        by (rule order_trans [of _ 0]) simp_all
      show "uint q < 2 ^ 15" using hi by simp
    qed
    finally show ?thesis
      by (simp only: u)
  qed
  show "\<exists>q. ulong_div 60000 rr = Some q \<and> bpm_of_rr rr = Some (int_of_ulong q)
        \<and> uint q = 60000 div uint rr
        \<and> uint q * uint rr \<le> 60000 \<and> 60000 < (uint q + 1) * uint rr
        \<and> (1 < rr \<longrightarrow> sint (int_of_ulong q) = 60000 div uint rr)"
    using d b u f c by blast
  show "bpm_of_rr 500 = Some 120" "bpm_of_rr 1000 = Some 60" "bpm_of_rr 461 = Some 130"
    by (simp_all add: bpm_of_rr_def ulong_div_def int_of_ulong_def)
qed

theorem bpm_of_rr_truncates_witness:
  "(461 :: c_ulong) \<noteq> 0 \<and> (1 :: c_ulong) < 461
   \<and> (\<exists>q. ulong_div 60000 461 = Some q \<and> uint q = 130 \<and> sint (int_of_ulong q) = 130)"
proof -
  have nz: "(461 :: c_ulong) \<noteq> 0" and gt: "(1 :: c_ulong) < 461"
    by simp_all
  show ?thesis
    using nz gt bpm_of_rr_truncates [OF nz] by auto
qed

text \<open>
  C7. The trend buffer is a FIFO of fixed capacity \<open>SCREEN_WIDTH\<close> = 128. A push keeps
  the length, puts the new coordinate in the last (rightmost) slot, drops the first
  (leftmost, oldest) element and moves every other element one slot to the left, keeping
  their order. After any run of pushes the buffer holds the last 128 elements of the old
  contents followed by the pushed coordinates; in particular, pushing 129 values leaves
  the coordinates of all of them but the first. The buffer has its 128 slots after
  \<open>setup\<close> and keeps them in every iteration.
\<close>

theorem pushGraph_fifo:
  "length (graphBuf s) = SCREEN_WIDTH \<Longrightarrow>
     SCREEN_WIDTH = 128
     \<and> length (graphBuf (pushGraph v s)) = SCREEN_WIDTH
     \<and> graphBuf (pushGraph v s) = tl (graphBuf s) @ [mapBpmToY v]
     \<and> graphBuf (pushGraph v s) ! (SCREEN_WIDTH - 1) = mapBpmToY v
     \<and> (\<forall>j < SCREEN_WIDTH - 1. graphBuf (pushGraph v s) ! j = graphBuf s ! (j + 1))
     \<and> length (graphBuf (pushes vs s)) = SCREEN_WIDTH
     \<and> graphBuf (pushes vs s) = drop (length vs) (graphBuf s @ map mapBpmToY vs)
     \<and> (length vs = SCREEN_WIDTH + 1 \<longrightarrow> graphBuf (pushes vs s) = map mapBpmToY (tl vs))
     \<and> (\<exists>s0. setup_sketch True (globals ops) = Some s0 \<and> length (graphBuf s0) = SCREEN_WIDTH)
     \<and> (\<forall>s'. loop ops raw now s = Some s' \<longrightarrow> length (graphBuf s') = SCREEN_WIDTH)"
proof (intro conjI allI impI)
  assume len: "length (graphBuf s) = SCREEN_WIDTH"
  show "\<exists>s0. setup_sketch True (globals ops) = Some s0 \<and> length (graphBuf s0) = SCREEN_WIDTH"
    using setup_sketch_graphBuf [of ops] by auto
  show "length (graphBuf s') = SCREEN_WIDTH" if "loop ops raw now s = Some s'" for s'
    using that len by (rule length_graphBuf_loop)
  show "SCREEN_WIDTH = 128"
    by (rule SCREEN_WIDTH_def)
  show "length (graphBuf (pushGraph v s)) = SCREEN_WIDTH"
    using len by (rule length_graphBuf_pushGraph)
  show "graphBuf (pushGraph v s) = tl (graphBuf s) @ [mapBpmToY v]"
    using len by (rule graphBuf_pushGraph)
  show "graphBuf (pushGraph v s) ! (SCREEN_WIDTH - 1) = mapBpmToY v"
    by (subst nth_graphBuf_pushGraph [OF len]) simp
  show "graphBuf (pushGraph v s) ! j = graphBuf s ! (j + 1)" if "j < SCREEN_WIDTH - 1" for j
    using that by (subst nth_graphBuf_pushGraph [OF len]) simp
  show "length (graphBuf (pushes vs s)) = SCREEN_WIDTH"
    using len by (simp add: graphBuf_pushes)
  show "graphBuf (pushes vs s) = drop (length vs) (graphBuf s @ map mapBpmToY vs)"
    using len by (rule graphBuf_pushes)
  show "graphBuf (pushes vs s) = map mapBpmToY (tl vs)" if "length vs = SCREEN_WIDTH + 1"
    using len that by (rule graphBuf_pushes_overflow)
qed

theorem pushGraph_fifo_witness:
  "length (graphBuf (idle_state 1000 1000)) = SCREEN_WIDTH
   \<and> graphBuf (pushGraph 100 (idle_state 1000 1000)) = tl (graphBuf (idle_state 1000 1000)) @ [mapBpmToY 100]
   \<and> length (replicate 129 (100 :: c_int)) = SCREEN_WIDTH + 1
   \<and> graphBuf (pushes (replicate 129 100) (idle_state 1000 1000))
       = map mapBpmToY (tl (replicate 129 100))"
proof -
  have len: "length (graphBuf (idle_state 1000 1000)) = SCREEN_WIDTH"
    by (simp add: idle_state_def)
  have n: "length (replicate 129 (100 :: c_int)) = SCREEN_WIDTH + 1"
    by (simp add: SCREEN_WIDTH_def)
  from len n show ?thesis
    using pushGraph_fifo [OF len, of 100 "replicate 129 100" exact_ops 600 2000] by blast
qed

text \<open>
  C8. The BPM-to-coordinate mapping clamps its input to [60, 130] and interpolates
  linearly (in integer arithmetic) onto the vertical range from \<open>graphTop\<close> to
  \<open>graphBottom\<close>, with the axis inverted: 60 maps to the bottom coordinate, 130 to the top
  coordinate, every output lies between them, the output does not increase when the
  input increases, and every input below 60 (above 130) maps to the coordinate of 60
  (of 130).
\<close>

theorem mapBpmToY_clamps_and_interpolates:
  "uint (mapBpmToY v) = mapToCoordinate (uint graphTop) (uint graphBottom) (sint v)
   \<and> graphTop \<le> mapBpmToY v \<and> mapBpmToY v \<le> graphBottom
   \<and> mapBpmToY 60 = graphBottom
   \<and> mapBpmToY 130 = graphTop
   \<and> (sint a \<le> sint b \<longrightarrow> mapBpmToY b \<le> mapBpmToY a)
   \<and> (sint v < 60 \<longrightarrow> mapBpmToY v = mapBpmToY 60)
   \<and> (130 < sint v \<longrightarrow> mapBpmToY v = mapBpmToY 130)"
proof (intro conjI impI)
  show "uint (mapBpmToY v) = mapToCoordinate (uint graphTop) (uint graphBottom) (sint v)"
    by (rule uint_mapBpmToY_spec)
  show "graphTop \<le> mapBpmToY v" "mapBpmToY v \<le> graphBottom"
    by (rule mapBpmToY_range)+
  show "mapBpmToY 60 = graphBottom"
    by (rule mapBpmToY_60)
  show "mapBpmToY 130 = graphTop"
    by (rule mapBpmToY_130)
  show "mapBpmToY b \<le> mapBpmToY a" if "sint a \<le> sint b"
    using that by (rule mapBpmToY_mono)
  show "mapBpmToY v = mapBpmToY 60" if "sint v < 60"
    using that by (simp only: mapBpmToY_60 mapBpmToY_low less_imp_le)
  show "mapBpmToY v = mapBpmToY 130" if "130 < sint v"
    using that by (simp only: mapBpmToY_130 mapBpmToY_high less_imp_le)
qed

theorem mapBpmToY_clamps_and_interpolates_witness:
  "sint (95 :: c_int) \<le> sint (130 :: c_int) \<and> mapBpmToY 130 \<le> mapBpmToY 95
   \<and> sint (59 :: c_int) < 60 \<and> mapBpmToY 59 = mapBpmToY 60
   \<and> 130 < sint (131 :: c_int) \<and> mapBpmToY 131 = mapBpmToY 130"
proof -
  have a: "sint (95 :: c_int) \<le> sint (130 :: c_int)" by simp
  have b: "sint (59 :: c_int) < 60" by simp
  have c: "130 < sint (131 :: c_int)" by simp
  from a b c show ?thesis
    using mapBpmToY_clamps_and_interpolates [of 59 95 130]
      mapBpmToY_clamps_and_interpolates [of 131 95 130]
    by blast
qed

text \<open>
  C10. Every iteration keeps the invariant that the persisted BPM and the displayed BPM
  are each the initial 0 or a value from 60 to 130. The invariant holds after
  \<open>setup\<close>, hence after any run of iterations. The displayed BPM stays 0 in every
  iteration without a beat whose BPM is accepted, and once it is in range it stays in
  range in every iteration, hence in every run.

  The display follows. \<open>drawUI\<close> sends one frame, whose big text is the placeholder
  \<open>--\<close> for the displayed BPM 0 and the number for a displayed BPM in range. An
  iteration with a beat whose BPM is accepted makes the candidate the persisted and the
  displayed BPM and at once sends a frame that shows this number; an iteration without
  one leaves the displayed BPM and sends at most the frame of the periodic refresh, which
  shows it. So a run that starts with the displayed BPM 0 and has no accepted BPM sends
  only frames that show \<open>--\<close>; a run that starts with a displayed BPM in range sends
  only frames that show a number from 60 to 130; and every run from a state with the
  invariant, the state after \<open>setup\<close> among them, sends only frames of these two kinds.
\<close>

theorem bpm_zero_or_in_range:
  "((\<exists>s0. setup_sketch True (globals ops) = Some s0 \<and> bpm_invariant s0 \<and> bpmDisplayed s0 = 0)
   \<and> (bpm_invariant s \<longrightarrow> (\<exists>s'. loop ops raw now s = Some s' \<and> bpm_invariant s'))
   \<and> (bpm_invariant s \<longrightarrow> (\<exists>s'. run ops ticks s = Some s' \<and> bpm_invariant s'))
   \<and> (\<exists>s0 s'. setup_sketch True (globals ops) = Some s0 \<and> run ops ticks s0 = Some s'
         \<and> bpm_invariant s')
   \<and> (bpm_invariant s \<longleftrightarrow>
        (bpm s = 0 \<or> 60 \<le> sint (bpm s) \<and> sint (bpm s) \<le> 130)
        \<and> (bpmDisplayed s = 0 \<or> 60 \<le> sint (bpmDisplayed s) \<and> sint (bpmDisplayed s) \<le> 130))
   \<and> frame (bpmDisplayed s) (graphBuf s) ! 7 = bpm_text (bpmDisplayed s)
   \<and> (bpm_invariant s \<longrightarrow>
        bpm_text (bpmDisplayed s)
        = (if bpmDisplayed s = 0 then PrintStr ''--'' else PrintInt (bpmDisplayed s)))
   \<and> (bpmDisplayed s = 0 \<and> \<not> beat_valid ops raw now s \<longrightarrow>
        (\<exists>s'. loop ops raw now s = Some s' \<and> bpmDisplayed s' = 0))
   \<and> (valid_bpm (bpmDisplayed s) \<longrightarrow>
        (\<exists>s'. loop ops raw now s = Some s' \<and> valid_bpm (bpmDisplayed s'))
        \<and> (\<exists>s'. run ops ticks s = Some s' \<and> valid_bpm (bpmDisplayed s'))))
   \<and> oled (drawUI s) = oled s @ frame (bpmDisplayed s) (graphBuf s)
   \<and> bpm_text 0 = PrintStr ''--''
   \<and> (valid_bpm v \<longrightarrow> bpm_text v = PrintInt v)
   \<and> (beat_valid ops raw now s \<longrightarrow>
        (\<exists>s'. loop ops raw now s = Some s' \<and> bpm s' = candidate now s
           \<and> bpmDisplayed s' = candidate now s \<and> valid_bpm (bpmDisplayed s')
           \<and> bpm_text (bpmDisplayed s') = PrintInt (candidate now s)
           \<and> oled s' = oled s @ frame (candidate now s) (graphBuf s')
                 @ (if 500 < now - lastRefresh s then frame (candidate now s) (graphBuf s')
                    else [])))
   \<and> (\<not> beat_valid ops raw now s \<longrightarrow>
        (\<exists>s'. loop ops raw now s = Some s' \<and> bpmDisplayed s' = bpmDisplayed s
           \<and> oled s' = oled s @ (if 500 < now - lastRefresh s
                                  then frame (bpmDisplayed s) (graphBuf s) else [])))
   \<and> (bpmDisplayed s = 0 \<and> no_valid_beat ops ticks s \<longrightarrow>
        (\<exists>s' n. run ops ticks s = Some s' \<and> bpmDisplayed s' = 0
           \<and> oled s' = oled s @ frames (replicate n (0, graphBuf s))))
   \<and> (valid_bpm (bpmDisplayed s) \<longrightarrow>
        (\<exists>s' shots. run ops ticks s = Some s' \<and> oled s' = oled s @ frames shots
           \<and> (\<forall>(shown, buf) \<in> set shots.
                 valid_bpm shown \<and> bpm_text shown = PrintInt shown)))
   \<and> (bpm_invariant s \<longrightarrow>
        (\<exists>s' shots. run ops ticks s = Some s' \<and> oled s' = oled s @ frames shots
           \<and> (\<forall>(shown, buf) \<in> set shots.
                 shown = 0 \<and> bpm_text shown = PrintStr ''--''
                 \<or> valid_bpm shown \<and> bpm_text shown = PrintInt shown)))
   \<and> (\<exists>s0 s' shots. setup_sketch True (globals ops) = Some s0 \<and> run ops ticks s0 = Some s'
         \<and> oled s' = oled s0 @ frames shots
         \<and> (\<forall>(shown, buf) \<in> set shots.
               shown = 0 \<and> bpm_text shown = PrintStr ''--''
               \<or> valid_bpm shown \<and> bpm_text shown = PrintInt shown))"
proof -
  let ?two = "\<lambda>shown. shown = 0 \<and> bpm_text shown = PrintStr ''--''
                 \<or> valid_bpm shown \<and> bpm_text shown = PrintInt shown"
  let ?num = "\<lambda>shown. valid_bpm shown \<and> bpm_text shown = PrintInt shown"
  have two: "?two v" if "valid_bpm v" for v
    using that by (simp add: bpm_text_valid)
  have num: "?num v" if "valid_bpm v" for v
    using that by (simp add: bpm_text_valid)
  have inv_two: "?two (bpmDisplayed t)" if "bpm_invariant t" for t :: "'a state"
    using that by (auto simp: bpm_invariant_def bpm_text_0 bpm_text_valid)
  have n5: "\<exists>s' n. run ops ticks s = Some s' \<and> bpmDisplayed s' = 0
           \<and> oled s' = oled s @ frames (replicate n (0, graphBuf s))"
    if a: "bpmDisplayed s = 0 \<and> no_valid_beat ops ticks s"
  proof -
    obtain s' n where "run ops ticks s = Some s'" "bpmDisplayed s' = 0"
      "oled s' = oled s @ frames (replicate n (0, graphBuf s))"
      using a run_no_valid_beat [of s ops ticks] by blast
    then show ?thesis
      by (intro exI [of _ s'] exI [of _ n]) simp
  qed
  have n6: "\<exists>s' shots. run ops ticks s = Some s' \<and> oled s' = oled s @ frames shots
           \<and> (\<forall>(shown, buf) \<in> set shots. ?num shown)"
    if a: "valid_bpm (bpmDisplayed s)"
  proof -
    obtain s' shots where "run ops ticks s = Some s'" "oled s' = oled s @ frames shots"
      "\<forall>(shown, buf) \<in> set shots. ?num shown"
      using run_frames [of ?num s ops ticks, OF num num [OF a]] by blast
    then show ?thesis
      by (intro exI [of _ s'] exI [of _ shots]) simp
  qed
  have n7: "\<exists>s' shots. run ops ticks t = Some s' \<and> oled s' = oled t @ frames shots
           \<and> (\<forall>(shown, buf) \<in> set shots. ?two shown)"
    if a: "bpm_invariant t" for t :: "'a state"
  proof -
    obtain s' shots where "run ops ticks t = Some s'" "oled s' = oled t @ frames shots"
      "\<forall>(shown, buf) \<in> set shots. ?two shown"
      using run_frames [of ?two t ops ticks, OF two inv_two [OF a]] by blast
    then show ?thesis
      by (intro exI [of _ s'] exI [of _ shots]) simp
  qed
  have n8: "\<exists>s0 s' shots. setup_sketch True (globals ops) = Some s0 \<and> run ops ticks s0 = Some s'
         \<and> oled s' = oled s0 @ frames shots
         \<and> (\<forall>(shown, buf) \<in> set shots. ?two shown)"
  proof -
    obtain s0 where s0: "setup_sketch True (globals ops) = Some s0" "bpm_invariant s0"
      using setup_sketch_invariant by blast
    obtain s' shots where "run ops ticks s0 = Some s'" "oled s' = oled s0 @ frames shots"
      "\<forall>(shown, buf) \<in> set shots. ?two shown"
      using n7 [OF s0(2)] by blast
    with s0(1) show ?thesis
      by (intro exI [of _ s0] exI [of _ s'] exI [of _ shots]) simp
  qed
  have c1: "oled (drawUI s) = oled s @ frame (bpmDisplayed s) (graphBuf s)"
    by simp
  have c2: "bpm_text 0 = PrintStr ''--''"
    by (rule bpm_text_0)
  have c3: "valid_bpm v \<longrightarrow> bpm_text v = PrintInt v"
    by (simp add: bpm_text_valid)
  have c4: "beat_valid ops raw now s \<longrightarrow>
        (\<exists>s'. loop ops raw now s = Some s' \<and> bpm s' = candidate now s
           \<and> bpmDisplayed s' = candidate now s \<and> valid_bpm (bpmDisplayed s')
           \<and> bpm_text (bpmDisplayed s') = PrintInt (candidate now s)
           \<and> oled s' = oled s @ frame (candidate now s) (graphBuf s')
                 @ (if 500 < now - lastRefresh s then frame (candidate now s) (graphBuf s')
                    else []))"
    by (rule impI) (rule valid_beat_shows)
  have c5: "\<not> beat_valid ops raw now s \<longrightarrow>
        (\<exists>s'. loop ops raw now s = Some s' \<and> bpmDisplayed s' = bpmDisplayed s
           \<and> oled s' = oled s @ (if 500 < now - lastRefresh s
                                  then frame (bpmDisplayed s) (graphBuf s) else []))"
    by (rule impI) (rule no_beat_shows)
  have c6: "bpmDisplayed s = 0 \<and> no_valid_beat ops ticks s \<longrightarrow>
        (\<exists>s' n. run ops ticks s = Some s' \<and> bpmDisplayed s' = 0
           \<and> oled s' = oled s @ frames (replicate n (0, graphBuf s)))"
    by (rule impI) (rule n5)
  have c7: "valid_bpm (bpmDisplayed s) \<longrightarrow>
        (\<exists>s' shots. run ops ticks s = Some s' \<and> oled s' = oled s @ frames shots
           \<and> (\<forall>(shown, buf) \<in> set shots. ?num shown))"
    by (rule impI) (rule n6)
  have c8: "bpm_invariant s \<longrightarrow>
        (\<exists>s' shots. run ops ticks s = Some s' \<and> oled s' = oled s @ frames shots
           \<and> (\<forall>(shown, buf) \<in> set shots. ?two shown))"
    by (rule impI) (rule n7)
  show ?thesis
    by (rule conjI [OF bpm_invariant_facts] conjI [OF c1] conjI [OF c2] conjI [OF c3]
        conjI [OF c4] conjI [OF c5] conjI [OF c6] conjI [OF c7] conjI [OF c8] n8)+
qed

theorem bpm_zero_or_in_range_witness:
  "bpm_invariant (idle_state 1000 2000)
   \<and> (\<exists>s'. run exact_ops [(600, 2000), (500, 2300)] (idle_state 1000 2000) = Some s'
         \<and> bpm_invariant s')
   \<and> bpm_text (bpmDisplayed (idle_state 1000 2000)) = PrintStr ''--''
   \<and> \<not> beat_valid exact_ops 600 2001 (idle_state 1000 2000)
   \<and> (\<exists>s'. loop exact_ops 600 2001 (idle_state 1000 2000) = Some s' \<and> bpmDisplayed s' = 0)
   \<and> valid_bpm (bpmDisplayed (idle_state 1000 2000\<lparr>bpmDisplayed := 100\<rparr>))
   \<and> (\<exists>s'. loop exact_ops 600 2001 (idle_state 1000 2000\<lparr>bpmDisplayed := 100\<rparr>) = Some s'
         \<and> valid_bpm (bpmDisplayed s'))
   \<and> beat_valid exact_ops 600 2000 (idle_state 1000 2000)
   \<and> (\<exists>s'. loop exact_ops 600 2000 (idle_state 1000 2000) = Some s' \<and> bpmDisplayed s' = 60
         \<and> bpm_text (bpmDisplayed s') = PrintInt 60 \<and> oled s' = frame 60 (graphBuf s'))
   \<and> no_valid_beat exact_ops [(600, 2001)] (idle_state 1000 2000)
   \<and> (\<exists>s' n. run exact_ops [(600, 2001)] (idle_state 1000 2000) = Some s'
         \<and> bpmDisplayed s' = 0
         \<and> oled s' = frames (replicate n (0, graphBuf (idle_state 1000 2000))))"
proof -
  note T = bpm_zero_or_in_range
    [of exact_ops "idle_state 1000 2000" 600 2001 "[(600, 2000), (500, 2300)]" 0]
  note U = bpm_zero_or_in_range
    [of exact_ops "idle_state 1000 2000\<lparr>bpmDisplayed := 100\<rparr>" 600 2001 "[]" 0]
  note V = bpm_zero_or_in_range
    [of exact_ops "idle_state 1000 2000" 600 2000 "[(600, 2001)]" 0]
  have inv: "bpm_invariant (idle_state 1000 2000)"
    by (simp add: bpm_invariant_def)
  have nv: "\<not> beat_valid exact_ops 600 2001 (idle_state 1000 2000)"
    by (simp add: beat_valid_def candidate_idle valid_bpm_def)
  have shown: "valid_bpm (bpmDisplayed (idle_state 1000 2000\<lparr>bpmDisplayed := 100\<rparr>))"
    by (simp add: valid_bpm_def)
  have bv: "beat_valid exact_ops 600 2000 (idle_state 1000 2000)"
    by (simp add: beat_valid_def beat_due_def rising_edge_idle refractoryMs_def candidate_idle
        valid_bpm_def)
  have quiet: "no_valid_beat exact_ops [(600, 2001)] (idle_state 1000 2000)"
    using nv loop_Some [of exact_ops 600 2001 "idle_state 1000 2000"] by auto
  have a: "\<exists>s'. run exact_ops [(600, 2000), (500, 2300)] (idle_state 1000 2000) = Some s'
         \<and> bpm_invariant s'"
    using inv T [THEN conjunct1] by blast
  have b: "bpm_text (bpmDisplayed (idle_state 1000 2000)) = PrintStr ''--''"
    using inv T [THEN conjunct1] by simp
  have c: "\<exists>s'. loop exact_ops 600 2001 (idle_state 1000 2000) = Some s' \<and> bpmDisplayed s' = 0"
    using nv T [THEN conjunct1] by simp
  have d: "\<exists>s'. loop exact_ops 600 2001 (idle_state 1000 2000\<lparr>bpmDisplayed := 100\<rparr>) = Some s'
         \<and> valid_bpm (bpmDisplayed s')"
    using shown U [THEN conjunct1] by blast
  have e: "\<exists>s'. loop exact_ops 600 2000 (idle_state 1000 2000) = Some s' \<and> bpmDisplayed s' = 60
         \<and> bpm_text (bpmDisplayed s') = PrintInt 60 \<and> oled s' = frame 60 (graphBuf s')"
    using bv V [THEN conjunct2, THEN conjunct2, THEN conjunct2, THEN conjunct2, THEN conjunct1]
    by (auto simp: candidate_idle)
  have f: "\<exists>s' n. run exact_ops [(600, 2001)] (idle_state 1000 2000) = Some s'
         \<and> bpmDisplayed s' = 0
         \<and> oled s' = frames (replicate n (0, graphBuf (idle_state 1000 2000)))"
    using quiet
      V [THEN conjunct2, THEN conjunct2, THEN conjunct2, THEN conjunct2, THEN conjunct2,
         THEN conjunct2, THEN conjunct1]
    by simp
  show ?thesis
    by (rule conjI [OF inv] conjI [OF a] conjI [OF b] conjI [OF nv] conjI [OF c]
        conjI [OF shown] conjI [OF d] conjI [OF bv] conjI [OF e] conjI [OF quiet] f)+
qed

end
